theory Spec2Isabelle
  imports Main "HOL-Library.Multiset" "HOL-Library.AList" "HOL-Library.Char_ord"
    "HOL-Library.List_Lexorder"
begin

section \<open>Records of the MINE and KEGG repositories\<close>

text \<open>
  \<^verbatim>\<open>MinetCreate.py\<close> handles compounds and reactions as Python dictionaries whose
  keys may be missing. A key that may be missing is an optional field here, so that
  every \<^verbatim>\<open>KeyError\<close> the source catches (or fails to catch) is a case of the model.
  The field \<^verbatim>\<open>'_id'\<close> is \<open>comp_id\<close> for a compound and \<open>rxn_id\<close> for a reaction.
  An entry of a reactant or product list is the pair \<^verbatim>\<open>[coefficient, id]\<close>; a
  reactant pair of KEGG is \<^verbatim>\<open>(compound-id-pair, role tag)\<close> under its pair id.
\<close>

record comp =
  comp_id :: "string option"
  Formula :: "string option"
  Reactions :: "string list option"
  Reactant_in :: "string list option"
  Product_of :: "string list option"
  DB_links :: "(string \<times> string list) list option"

record rxn =
  rxn_id :: "string option"
  Reactants :: "(int \<times> string) list option"
  Products :: "(int \<times> string) list option"
  RPair :: "(string \<times> string \<times> string) list option"

datatype error = KeyError | IndexError | NameError | ZeroDivisionError

text \<open>What the source writes with \<^verbatim>\<open>sError\<close>, one constructor for each message.\<close>

datatype warning =
    LacksFormula string
  | NotValidCompound comp
  | StartExceedsCLimit string
  | CompoundLacksId comp
  | ReactionLacksId rxn
  | NoReactionId rxn
  | NoReactants string
  | NoProducts string

section \<open>Strings\<close>

text \<open>Python's \<^verbatim>\<open>a in b\<close> on two strings: \<open>a\<close> occurs in \<open>b\<close> as a substring.\<close>

fun startswith :: "string \<Rightarrow> string \<Rightarrow> bool" where
  "startswith [] s = True"
| "startswith (p # ps) [] = False"
| "startswith (p # ps) (x # xs) = (p = x \<and> startswith ps xs)"

fun str_in :: "string \<Rightarrow> string \<Rightarrow> bool" where
  "str_in sub [] = (sub = [])"
| "str_in sub (x # xs) = (startswith sub (x # xs) \<or> str_in sub xs)"

definition is_digit :: "char \<Rightarrow> bool" where
  "is_digit ch = (ch \<in> set ''0123456789'')"

definition digit_val :: "char \<Rightarrow> nat" where
  "digit_val ch = length (takeWhile (\<lambda>d. d \<noteq> ch) ''0123456789'')"

text \<open>
  \<^verbatim>\<open>int(s)\<close> on a string of ASCII digits; \<open>None\<close> is the \<^verbatim>\<open>ValueError\<close> of an
  empty string (or of any other character).
\<close>

definition py_int :: "string \<Rightarrow> nat option" where
  "py_int s =
     (if s \<noteq> [] \<and> list_all is_digit s
      then Some (foldl (\<lambda>a ch. 10 * a + digit_val ch) 0 s) else None)"

text \<open>\<^verbatim>\<open>s.split(sep)\<close> for a separator of one character.\<close>

fun py_split :: "char \<Rightarrow> string \<Rightarrow> string list" where
  "py_split sep [] = [[]]"
| "py_split sep (x # xs) =
     (if x = sep then [] # py_split sep xs
      else (x # hd (py_split sep xs)) # tl (py_split sep xs))"

text \<open>
  \<^verbatim>\<open>re.search('C{1}[0-9]*', formula)\<close>: the leftmost \<^verbatim>\<open>C\<close> with the longest run
  of digits after it; the result is \<^verbatim>\<open>match.group(0)\<close>, \<open>None\<close> when there is no
  match.
\<close>

definition re_search_C :: "string \<Rightarrow> string option" where
  "re_search_C formula =
     (case dropWhile (\<lambda>ch. ch \<noteq> CHR ''C'') formula of
        [] \<Rightarrow> None
      | x # xs \<Rightarrow> Some (x # takeWhile is_digit xs))"

section \<open>LimitCarbon\<close>

text \<open>
  \<^verbatim>\<open>C_count\<close> of \<^verbatim>\<open>LimitCarbon\<close>: \<^verbatim>\<open>int(match.group(0).split('C')[1])\<close>, 1 on a
  \<^verbatim>\<open>ValueError\<close>, 0 without a match.
\<close>

definition C_count :: "string \<Rightarrow> nat" where
  "C_count formula =
     (case re_search_C formula of
        Some g \<Rightarrow> (case py_int (py_split CHR ''C'' g ! 1) of Some n \<Rightarrow> n | None \<Rightarrow> 1)
      | None \<Rightarrow> 0)"

definition LimitCarbon :: "comp \<Rightarrow> int \<Rightarrow> bool" where
  "LimitCarbon cp C_limit =
     (case Formula cp of
        None \<Rightarrow> False
      | Some formula \<Rightarrow> int (C_count formula) > C_limit)"

text \<open>The warning \<^verbatim>\<open>LimitCarbon\<close> writes for a compound without a formula.\<close>

definition LimitCarbon_err :: "comp \<Rightarrow> warning list" where
  "LimitCarbon_err cp =
     (case Formula cp of
        None \<Rightarrow> [LacksFormula (case comp_id cp of Some i \<Rightarrow> i | None \<Rightarrow> ''UnknownCompound'')]
      | Some formula \<Rightarrow> [])"

text \<open>
  The carbon count as the specification words it: the integer after the first
  \<^verbatim>\<open>C\<close>, 0 when the formula has no \<^verbatim>\<open>C\<close>, 1 when no digit follows it.
\<close>

definition decimal :: "string \<Rightarrow> nat" where
  "decimal ds =
     sum_list (map (\<lambda>(ch, k). digit_val ch * 10 ^ k) (zip ds (rev [0..<length ds])))"

definition spec_carbon_count :: "string \<Rightarrow> nat" where
  "spec_carbon_count formula =
     (if CHR ''C'' \<notin> set formula then 0
      else let ds = takeWhile is_digit (tl (dropWhile (\<lambda>ch. ch \<noteq> CHR ''C'') formula))
           in if ds = [] then 1 else decimal ds)"

section \<open>Errors\<close>

text \<open>An exception ends the computation: the rest runs on a result only.\<close>

definition ebind :: "error + 'a \<Rightarrow> ('a \<Rightarrow> error + 'b) \<Rightarrow> error + 'b" where
  "ebind m f = (case m of Inl e \<Rightarrow> Inl e | Inr x \<Rightarrow> f x)"

section \<open>The network\<close>

text \<open>
  A \<^verbatim>\<open>networkx.DiGraph\<close>: the node dictionary in insertion order (node number to
  attributes), the edges, and the two entries of \<^verbatim>\<open>graph.graph\<close> the program uses,
  each of which may be missing. Every node the program or its tests create carries
  \<^verbatim>\<open>type\<close> and \<^verbatim>\<open>mid\<close>; \<^verbatim>\<open>start\<close> (compound nodes) and \<^verbatim>\<open>c\<close> (reaction
  nodes) are optional. \<^verbatim>\<open>mine_data\<close> is \<^verbatim>\<open>{**comp_dict, **rxn_dict}\<close>, so an id
  leads to a compound or to a reaction.
\<close>

record node =
  n_type :: string
  n_mid :: string
  n_start :: "bool option"
  n_c :: "nat set option"

datatype mine_entry = Compound comp | Reaction rxn

record graph =
  nodes :: "(nat \<times> node) list"
  edges :: "(nat \<times> nat) set"
  cmid2node :: "(string \<rightharpoonup> nat) option"
  mine_data :: "(string \<rightharpoonup> mine_entry) option"

text \<open>
  \<^verbatim>\<open>graph.add_node(N, type=.., mid=.., start=.. or c=..)\<close>: a new node is appended; a
  node that exists keeps its place and the attributes the call does not name.
\<close>

definition add_node ::
  "graph \<Rightarrow> nat \<Rightarrow> string \<Rightarrow> string \<Rightarrow> bool option \<Rightarrow> nat set option \<Rightarrow> graph" where
  "add_node g N ty m st cs =
     g\<lparr>nodes := AList.update N
        (case map_of (nodes g) N of
           None \<Rightarrow> \<lparr>n_type = ty, n_mid = m, n_start = st, n_c = cs\<rparr>
         | Some old \<Rightarrow>
             \<lparr>n_type = ty, n_mid = m,
              n_start = (case st of None \<Rightarrow> n_start old | Some b \<Rightarrow> Some b),
              n_c = (case cs of None \<Rightarrow> n_c old | Some s \<Rightarrow> Some s)\<rparr>)
        (nodes g)\<rparr>"

text \<open>
  \<^verbatim>\<open>graph.add_edge(u, v)\<close>. Both ends are nodes of the graph at every call of the
  program (\<^verbatim>\<open>CheckConnection\<close> has read the one, \<^verbatim>\<open>add_node\<close> has made the other),
  so the case where networkx would create a missing end does not arise.
\<close>

definition add_edge :: "graph \<Rightarrow> nat \<Rightarrow> nat \<Rightarrow> graph" where
  "add_edge g u v = g\<lparr>edges := insert (u, v) (edges g)\<rparr>"

section \<open>CheckConnection\<close>

text \<open>
  The guarded lookup \<^verbatim>\<open>r_mid in graph['mine_data'][c_mid][field]\<close>: any of the three
  keys may be missing, and the \<^verbatim>\<open>KeyError\<close> is caught (a reaction has neither list).
\<close>

definition listed_in ::
  "(comp \<Rightarrow> string list option) \<Rightarrow> graph \<Rightarrow> string \<Rightarrow> string \<Rightarrow> bool" where
  "listed_in field g c_mid r_mid =
     (case mine_data g of
        None \<Rightarrow> False
      | Some md \<Rightarrow>
          (case md c_mid of
             Some (Compound cp) \<Rightarrow>
               (case field cp of None \<Rightarrow> False | Some l \<Rightarrow> r_mid \<in> set l)
           | Some (Reaction r) \<Rightarrow> False
           | None \<Rightarrow> False))"

text \<open>
  \<^verbatim>\<open>minetwork.node[c_node]['mid']\<close> and the two reads of \<^verbatim>\<open>r_node\<close> are outside
  any \<^verbatim>\<open>try\<close>: a node number that is not in the graph raises \<^verbatim>\<open>KeyError\<close>.
\<close>

definition CheckConnection :: "graph \<Rightarrow> nat \<Rightarrow> nat \<Rightarrow> error + bool" where
  "CheckConnection minetwork c_node r_node =
     (case map_of (nodes minetwork) c_node of
        None \<Rightarrow> Inl KeyError
      | Some cn \<Rightarrow>
          (case map_of (nodes minetwork) r_node of
             None \<Rightarrow> Inl KeyError
           | Some rn \<Rightarrow>
               Inr ((n_type rn \<in> {''rf'', ''pr''} \<and>
                       listed_in Reactant_in minetwork (n_mid cn) (n_mid rn)) \<or>
                    (n_type rn \<in> {''pf'', ''rr''} \<and>
                       listed_in Product_of minetwork (n_mid cn) (n_mid rn)))))"

section \<open>AddCompoundNode\<close>

text \<open>
  The \<^verbatim>\<open>if\<close>/\<^verbatim>\<open>elif\<close> chain that sets \<^verbatim>\<open>start\<close>. \<^verbatim>\<open>mid[1:]\<close> of the empty string
  is empty; \<^verbatim>\<open>mid[0]\<close> of the empty string raises \<^verbatim>\<open>IndexError\<close>.
\<close>

definition start_flag :: "comp \<Rightarrow> string \<Rightarrow> string set \<Rightarrow> error + bool" where
  "start_flag compound mid start_comp_ids =
     (if mid \<in> start_comp_ids then Inr True
      else if CHR ''C'' # drop 1 mid \<in> start_comp_ids then Inr True
      else (case mid of
              [] \<Rightarrow> Inl IndexError
            | ch # rest \<Rightarrow>
                if ch = CHR ''X'' \<and> \<not> LimitCarbon compound 0 then Inr True
                else Inr False))"

definition set_cmid2node :: "graph \<Rightarrow> string \<Rightarrow> nat \<Rightarrow> graph" where
  "set_cmid2node g mid N =
     g\<lparr>cmid2node :=
         Some (case cmid2node g of None \<Rightarrow> [mid \<mapsto> N] | Some m \<Rightarrow> m(mid \<mapsto> N))\<rparr>"

definition AddCompoundNode :: "graph \<Rightarrow> comp \<Rightarrow> string set \<Rightarrow> error + graph" where
  "AddCompoundNode g compound start_comp_ids =
     (let N = length (nodes g) + 1 in
      case comp_id compound of
        None \<Rightarrow> Inr g
      | Some mid \<Rightarrow>
          ebind (start_flag compound mid start_comp_ids)
            (\<lambda>start. Inr (set_cmid2node (add_node g N ''c'' mid (Some start) None) mid N)))"

text \<open>
  The \<^verbatim>\<open>start\<close> attribute in the words of the specification: the id is a start
  id, or the id with \<^verbatim>\<open>C\<close> for its first character is one, or the id begins with
  \<^verbatim>\<open>X\<close> and the compound has zero carbons. A compound without a formula has no
  carbon count, so it is not counted among those with zero carbons.
\<close>

definition claimed_start :: "comp \<Rightarrow> string \<Rightarrow> string set \<Rightarrow> bool" where
  "claimed_start compound mid start_comp_ids =
     (mid \<in> start_comp_ids \<or> CHR ''C'' # drop 1 mid \<in> start_comp_ids \<or>
      (take 1 mid = ''X'' \<and>
       (case Formula compound of None \<Rightarrow> False | Some f \<Rightarrow> spec_carbon_count f = 0)))"

section \<open>AddQuadReactionNode\<close>

definition resolve :: "graph \<Rightarrow> string \<Rightarrow> nat option" where
  "resolve g c_mid = (case cmid2node g of None \<Rightarrow> None | Some m \<Rightarrow> m c_mid)"

text \<open>
  \<^verbatim>\<open>for c_node in cs: if CheckConnection(graph, c_node, N): graph.add_edge(..)\<close>, the
  edge running into the reaction node (\<open>into\<close>) or out of it.
\<close>

fun connect :: "bool \<Rightarrow> nat \<Rightarrow> nat list \<Rightarrow> graph \<Rightarrow> error + graph" where
  "connect into N [] g = Inr g"
| "connect into N (c_node # cs) g =
     ebind (CheckConnection g c_node N)
       (\<lambda>b. connect into N cs
          (if b then (if into then add_edge g c_node N else add_edge g N c_node) else g))"

text \<open>
  The second half of \<^verbatim>\<open>AddQuadReactionNode\<close>: the four role nodes \<^verbatim>\<open>N\<close> to
  \<^verbatim>\<open>N + 3\<close> with \<^verbatim>\<open>N = len(graph.nodes()) + 1\<close>, each connected to those of its
  compound nodes that \<^verbatim>\<open>CheckConnection\<close> accepts, and the two edges of the forward
  and the reverse reaction. \<open>rf\<close> and \<open>pf\<close> are the compound nodes of the reactants
  and of the products.
\<close>

definition add_quad :: "graph \<Rightarrow> string \<Rightarrow> nat list \<Rightarrow> nat list \<Rightarrow> error + graph" where
  "add_quad g rid rf pf =
     (let rr = pf; pr = rf; N = length (nodes g) + 1
      in ebind (connect True N rf (add_node g N ''rf'' rid None (Some (set rf))))
        (\<lambda>g1. ebind (connect False (N + 1) pf
                       (add_node g1 (N + 1) ''pf'' rid None (Some (set pf))))
        (\<lambda>g2. ebind (connect True (N + 2) rr
                       (add_node (add_edge g2 N (N + 1)) (N + 2) ''rr'' rid None
                          (Some (set rr))))
        (\<lambda>g3. ebind (connect False (N + 3) pr
                       (add_node g3 (N + 3) ''pr'' rid None (Some (set pr))))
        (\<lambda>g4. Inr (add_edge g4 (N + 2) (N + 3)))))))"

text \<open>
  A reaction without \<^verbatim>\<open>'_id'\<close>, \<^verbatim>\<open>'Reactants'\<close> or \<^verbatim>\<open>'Products'\<close> is malformed
  and the graph is returned as it is; so it is when \<^verbatim>\<open>cmid2node\<close> lacks a reactant
  or a product. The participants are Python sets: the lists below are free of
  duplicates, and the order in which they are walked does not show in the result.
\<close>

definition AddQuadReactionNode :: "graph \<Rightarrow> rxn \<Rightarrow> error + graph" where
  "AddQuadReactionNode g r =
     (case rxn_id r of
        None \<Rightarrow> Inr g
      | Some rid \<Rightarrow>
     (case Reactants r of
        None \<Rightarrow> Inr g
      | Some rs \<Rightarrow>
     (case Products r of
        None \<Rightarrow> Inr g
      | Some ps \<Rightarrow>
          (let reactants_f = remdups (map snd rs);
               products_f = remdups (map snd ps)
           in if list_ex (\<lambda>c_mid. resolve g c_mid = None) (reactants_f @ products_f)
              then Inr g
              else add_quad g rid
                     (remdups (List.map_filter (resolve g) reactants_f))
                     (remdups (List.map_filter (resolve g) products_f))))))"

text \<open>A reaction role node as \<^verbatim>\<open>AddQuadReactionNode\<close> creates it.\<close>

definition role_node :: "string \<Rightarrow> string \<Rightarrow> nat set \<Rightarrow> node" where
  "role_node ty rid cs = \<lparr>n_type = ty, n_mid = rid, n_start = None, n_c = Some cs\<rparr>"

section \<open>ExpandStartCompIds and ConstructNetwork\<close>

text \<open>
  \<^verbatim>\<open>comp['DB_links']['KEGG']\<close>, \<open>None\<close> when either key is missing. A dictionary
  that is walked in order (\<^verbatim>\<open>comp_dict\<close>, \<^verbatim>\<open>rxn_dict\<close>, \<^verbatim>\<open>DB_links\<close>) is an
  association list; \<open>map_of\<close> looks a key up.
\<close>

definition kegg_links :: "comp \<Rightarrow> string list option" where
  "kegg_links cp = (case DB_links cp of None \<Rightarrow> None | Some l \<Rightarrow> map_of l ''KEGG'')"

text \<open>
  The first loop collects the KEGG ids of the start compounds that are in
  \<^verbatim>\<open>comp_dict\<close> (a start id that is not, is passed by); the second adds every
  compound that shares a KEGG id with them to the set it was given.
\<close>

definition ExpandStartCompIds ::
  "(string \<times> comp) list \<Rightarrow> string set \<Rightarrow> string list \<Rightarrow> string set" where
  "ExpandStartCompIds comp_dict start_comp_ids extra_kegg_ids =
     (let start_kegg_ids = set extra_kegg_ids \<union>
            (\<Union>start_comp_id \<in> start_comp_ids.
               case map_of comp_dict start_comp_id of
                 None \<Rightarrow> {}
               | Some start_comp \<Rightarrow>
                   (case kegg_links start_comp of None \<Rightarrow> {} | Some ks \<Rightarrow> set ks))
      in start_comp_ids \<union>
         {comp_id \<in> set (map fst comp_dict).
            case map_of comp_dict comp_id of
              None \<Rightarrow> False
            | Some cp \<Rightarrow>
                (case kegg_links cp of
                   None \<Rightarrow> False
                 | Some ks \<Rightarrow> set ks \<inter> start_kegg_ids \<noteq> {})})"

text \<open>\<^verbatim>\<open>{**comp_dict, **rxn_dict}\<close>: a reaction wins where a key is in both.\<close>

definition merge_data ::
  "(string \<times> comp) list \<Rightarrow> (string \<times> rxn) list \<Rightarrow> (string \<rightharpoonup> mine_entry)" where
  "merge_data comp_dict rxn_dict =
     (\<lambda>k. case map_of rxn_dict k of
             Some r \<Rightarrow> Some (Reaction r)
           | None \<Rightarrow> map_option Compound (map_of comp_dict k))"

fun add_compounds ::
  "(string \<times> comp) list \<Rightarrow> string set \<Rightarrow> string list \<Rightarrow> graph \<Rightarrow> error + graph" where
  "add_compounds comp_dict start_comp_ids [] g = Inr g"
| "add_compounds comp_dict start_comp_ids (k # ks) g =
     (case map_of comp_dict k of
        None \<Rightarrow> Inl KeyError
      | Some cp \<Rightarrow>
          ebind (AddCompoundNode g cp start_comp_ids)
            (add_compounds comp_dict start_comp_ids ks))"

fun add_reactions :: "(string \<times> rxn) list \<Rightarrow> string list \<Rightarrow> graph \<Rightarrow> error + graph" where
  "add_reactions rxn_dict [] g = Inr g"
| "add_reactions rxn_dict (k # ks) g =
     (case map_of rxn_dict k of
        None \<Rightarrow> Inl KeyError
      | Some r \<Rightarrow> ebind (AddQuadReactionNode g r) (add_reactions rxn_dict ks))"

text \<open>
  Compounds, then reactions, each in the sorted order of the dictionary's keys, on a
  graph that starts with \<^verbatim>\<open>mine_data\<close> alone.
\<close>

definition ConstructNetwork ::
  "(string \<times> comp) list \<Rightarrow> (string \<times> rxn) list \<Rightarrow> string list \<Rightarrow> string list \<Rightarrow>
   error + graph" where
  "ConstructNetwork comp_dict rxn_dict start_comp_ids extra_kegg_ids =
     (let start_ids = ExpandStartCompIds comp_dict (set start_comp_ids) extra_kegg_ids;
          minetwork = \<lparr>nodes = [], edges = {}, cmid2node = None,
                       mine_data = Some (merge_data comp_dict rxn_dict)\<rparr>
      in ebind (add_compounds comp_dict start_ids (sort (map fst comp_dict)) minetwork)
           (add_reactions rxn_dict (sort (map fst rxn_dict))))"

section \<open>AllowReactionListing and SortKeggReactions\<close>

text \<open>
  \<^verbatim>\<open>kegg_comp['_id']\<close> is read only once \<^verbatim>\<open>LimitCarbon(kegg_comp, 0)\<close> holds, and
  raises \<^verbatim>\<open>KeyError\<close> if the key is missing. The loop over the reactant pairs
  answers \<^verbatim>\<open>False\<close> at the first pair that names the compound and is a cofactor
  pair or is \<^verbatim>\<open>RP00003\<close>.
\<close>

definition AllowReactionListing :: "comp \<Rightarrow> rxn \<Rightarrow> error + bool" where
  "AllowReactionListing kegg_comp kegg_rxn =
     (if \<not> LimitCarbon kegg_comp 0 then Inr False
      else case comp_id kegg_comp of
        None \<Rightarrow> Inl KeyError
      | Some i \<Rightarrow>
          if i = ''C00011'' then Inr False
          else if i \<in> {''C00010'', ''C00229''} then Inr False
          else (case RPair kegg_rxn of
                  None \<Rightarrow> Inr True
                | Some rps \<Rightarrow>
                    Inr (\<not> list_ex (\<lambda>(pid, pair, tag).
                            (str_in i pair \<and> tag = ''cofac'') \<or>
                            (str_in i pair \<and> pid = ''RP00003'')) rps)))"

text \<open>
  \<^verbatim>\<open>comp[field].append(rxn['_id'])\<close>, or \<^verbatim>\<open>comp[field] = [rxn['_id']]\<close> when the
  list is missing; \<^verbatim>\<open>rxn['_id']\<close> raises \<^verbatim>\<open>KeyError\<close> in the handler if the
  reaction has no id. Done only when the reaction has the participant list and the
  compound's key is in it.
\<close>

definition list_rxn :: "string list option \<Rightarrow> string \<Rightarrow> string list option" where
  "list_rxn l rid = Some (case l of None \<Rightarrow> [rid] | Some xs \<Rightarrow> xs @ [rid])"

definition add_Reactant_in :: "string \<Rightarrow> rxn \<Rightarrow> comp \<Rightarrow> error + comp" where
  "add_Reactant_in kegg_comp_id r cp =
     (case Reactants r of
        None \<Rightarrow> Inr cp
      | Some rs \<Rightarrow>
          if kegg_comp_id \<in> set (map snd rs)
          then (case rxn_id r of
                  None \<Rightarrow> Inl KeyError
                | Some rid \<Rightarrow> Inr (cp\<lparr>Reactant_in := list_rxn (Reactant_in cp) rid\<rparr>))
          else Inr cp)"

definition add_Product_of :: "string \<Rightarrow> rxn \<Rightarrow> comp \<Rightarrow> error + comp" where
  "add_Product_of kegg_comp_id r cp =
     (case Products r of
        None \<Rightarrow> Inr cp
      | Some ps \<Rightarrow>
          if kegg_comp_id \<in> set (map snd ps)
          then (case rxn_id r of
                  None \<Rightarrow> Inl KeyError
                | Some rid \<Rightarrow> Inr (cp\<lparr>Product_of := list_rxn (Product_of cp) rid\<rparr>))
          else Inr cp)"

text \<open>The loop over the \<^verbatim>\<open>'Reactions'\<close> of one compound.\<close>

fun sort_reactions ::
  "(string \<times> rxn) list \<Rightarrow> string \<Rightarrow> string list \<Rightarrow> comp \<Rightarrow> error + comp" where
  "sort_reactions kegg_rxn_dict kegg_comp_id [] cp = Inr cp"
| "sort_reactions kegg_rxn_dict kegg_comp_id (rid # rids) cp =
     (case map_of kegg_rxn_dict rid of
        None \<Rightarrow> sort_reactions kegg_rxn_dict kegg_comp_id rids cp
      | Some r \<Rightarrow>
          ebind (AllowReactionListing cp r)
            (\<lambda>allowed.
               if \<not> allowed then sort_reactions kegg_rxn_dict kegg_comp_id rids cp
               else ebind (add_Reactant_in kegg_comp_id r cp)
                      (\<lambda>cp1. ebind (add_Product_of kegg_comp_id r cp1)
                         (sort_reactions kegg_rxn_dict kegg_comp_id rids))))"

text \<open>
  The loop over the compounds; each one changes its own entry of the dictionary and
  no other.
\<close>

fun SortKeggReactions ::
  "(string \<times> comp) list \<Rightarrow> (string \<times> rxn) list \<Rightarrow> error + (string \<times> comp) list" where
  "SortKeggReactions [] kegg_rxn_dict = Inr []"
| "SortKeggReactions ((kegg_comp_id, kegg_comp) # rest) kegg_rxn_dict =
     ebind (case Reactions kegg_comp of
              None \<Rightarrow> Inr kegg_comp
            | Some rids \<Rightarrow> sort_reactions kegg_rxn_dict kegg_comp_id rids kegg_comp)
       (\<lambda>cp. ebind (SortKeggReactions rest kegg_rxn_dict)
          (\<lambda>rest'. Inr ((kegg_comp_id, cp) # rest')))"

section \<open>KeggMineIntegration\<close>

text \<open>
  \<^verbatim>\<open>re.match('^[CX]{1}[0-9,a-f]{40}$', mine_id)\<close>: the class holds the comma, and
  \<^verbatim>\<open>$\<close> also matches before one newline that ends the string.
\<close>

definition is_mine_id :: "string \<Rightarrow> bool" where
  "is_mine_id s =
     (case s of
        [] \<Rightarrow> False
      | ch # rest \<Rightarrow>
          ch \<in> {CHR ''C'', CHR ''X''} \<and>
          list_all (\<lambda>x. x \<in> set ''0123456789,abcdef'') (take 40 rest) \<and>
          (length rest = 40 \<or> (length rest = 41 \<and> rest ! 40 = CHR 0x0A)))"

text \<open>
  The first loop: the number of compound nodes, the number of those with a MINE id,
  and the KEGG ids of the latter, each with the MINE ids that link to it.
\<close>

fun kegg_index ::
  "graph \<Rightarrow> (nat \<times> node) list \<Rightarrow> nat \<times> nat \<times> (string \<rightharpoonup> string set) \<Rightarrow>
   nat \<times> nat \<times> (string \<rightharpoonup> string set)" where
  "kegg_index g [] acc = acc"
| "kegg_index g ((v, nd) # rest) (c_node_count, mc_node_count, kegg_to_mine) =
     (if n_type nd = ''c'' then
        (if is_mine_id (n_mid nd) then
           (case (case mine_data g of
                    None \<Rightarrow> None
                  | Some md \<Rightarrow>
                      (case md (n_mid nd) of
                         Some (Compound cp) \<Rightarrow> kegg_links cp
                       | Some (Reaction r) \<Rightarrow> None
                       | None \<Rightarrow> None)) of
              None \<Rightarrow> kegg_index g rest (c_node_count + 1, mc_node_count + 1, kegg_to_mine)
            | Some kegg_ids \<Rightarrow>
                kegg_index g rest
                  (c_node_count + 1, mc_node_count + 1,
                   fold (\<lambda>kegg_id m.
                           m(kegg_id \<mapsto> (case m kegg_id of
                                             None \<Rightarrow> {n_mid nd}
                                           | Some ms \<Rightarrow> insert (n_mid nd) ms)))
                        (remdups kegg_ids) kegg_to_mine))
         else kegg_index g rest (c_node_count + 1, mc_node_count, kegg_to_mine))
      else kegg_index g rest (c_node_count, mc_node_count, kegg_to_mine))"

text \<open>
  The second loop. On a compound node it evaluates
  \<^verbatim>\<open>re.match('^C{1}[0-9]{5}$', compound)\<close>, and \<^verbatim>\<open>compound\<close> is a name that is bound
  nowhere in the function or the module: the statement raises \<^verbatim>\<open>NameError\<close>, and none
  of the statements after it in the branch (the lookup in \<^verbatim>\<open>kegg_to_mine\<close>, the
  transfer of the edges, \<^verbatim>\<open>remove_node\<close>) is ever run. On any other node the loop
  counts the node and divides by \<^verbatim>\<open>kc_node_count\<close> for the progress message.
\<close>

fun transfer_edges :: "nat \<Rightarrow> nat \<Rightarrow> (nat \<times> node) list \<Rightarrow> graph \<Rightarrow> error + graph" where
  "transfer_edges kc_node_count n [] g = Inr g"
| "transfer_edges kc_node_count n ((v, nd) # rest) g =
     (if n_type nd = ''c'' then Inl NameError
      else if kc_node_count = 0 then Inl ZeroDivisionError
      else transfer_edges kc_node_count (n + 1) rest g)"

definition KeggMineIntegration :: "graph \<Rightarrow> error + graph" where
  "KeggMineIntegration network =
     (case kegg_index network (nodes network) (0, 0, Map.empty) of
        (c_node_count, mc_node_count, kegg_to_mine) \<Rightarrow>
          transfer_edges (c_node_count - mc_node_count) 0 (nodes network) network)"

section \<open>GetRawNetwork\<close>

text \<open>
  The MINE database is outside the program: \<open>get_comp\<close> and \<open>get_rxn\<close> stand for
  \<^verbatim>\<open>GetComp\<close> and \<^verbatim>\<open>GetRxn\<close> on the connection, which answer a record or
  \<^verbatim>\<open>None\<close>. \<^verbatim>\<open>ThreadedGetComps\<close> and \<^verbatim>\<open>ThreadedGetRxns\<close> answer one result for
  each id they are given, in the order in which the worker threads finish. That order,
  and the order in which Python walks a set, is not fixed by the program: the model takes
  it as the parameter \<open>sched\<close>, which rearranges a list, and the theorems hold for
  every \<open>sched\<close> that is a rearrangement. The warnings \<^verbatim>\<open>GetComp\<close> and \<^verbatim>\<open>GetRxn\<close>
  write themselves are not part of the model.
\<close>

type_synonym sched = "string list \<Rightarrow> string list"

definition ThreadedGetComps ::
  "sched \<Rightarrow> (string \<Rightarrow> comp option) \<Rightarrow> string list \<Rightarrow> comp option list" where
  "ThreadedGetComps sched get_comp comp_id_list = map get_comp (sched comp_id_list)"

definition ThreadedGetRxns ::
  "sched \<Rightarrow> (string \<Rightarrow> rxn option) \<Rightarrow> string list \<Rightarrow> rxn option list" where
  "ThreadedGetRxns sched get_rxn rxn_id_list = map get_rxn (sched rxn_id_list)"

definition ExtractCompReactionIds :: "comp \<Rightarrow> string list" where
  "ExtractCompReactionIds cp =
     (case Reactant_in cp of None \<Rightarrow> [] | Some l \<Rightarrow> l) @
     (case Product_of cp of None \<Rightarrow> [] | Some l \<Rightarrow> l)"

definition ExtractReactionCompIds :: "rxn \<Rightarrow> string list" where
  "ExtractReactionCompIds r =
     (case Reactants r of None \<Rightarrow> [] | Some rs \<Rightarrow> map snd rs) @
     (case Products r of None \<Rightarrow> [] | Some ps \<Rightarrow> map snd ps)"

definition ExtractReactionCompIds_err :: "rxn \<Rightarrow> warning list" where
  "ExtractReactionCompIds_err r =
     (let name = (case rxn_id r of None \<Rightarrow> ''UnknownReaction'' | Some i \<Rightarrow> i) in
      (case rxn_id r of None \<Rightarrow> [NoReactionId r] | Some i \<Rightarrow> []) @
      (case Reactants r of None \<Rightarrow> [NoReactants name] | Some rs \<Rightarrow> []) @
      (case Products r of None \<Rightarrow> [NoProducts name] | Some ps \<Rightarrow> []))"

text \<open>
  The variables of \<^verbatim>\<open>GetRawNetwork\<close>, and \<open>stderr\<close> for what it has written with
  \<^verbatim>\<open>sError\<close>. The two dictionaries and the cache are association lists in insertion
  order; the three sets are only added to and asked for membership.
\<close>

record expansion =
  comp_dict :: "(string \<times> comp) list"
  rxn_dict :: "(string \<times> rxn) list"
  comps :: nat
  extended_comp_ids :: "string set"
  rxn_exceeding_C_limit :: "string set"
  comp_exceeding_C_limit :: "string set"
  comp_cache :: "(string \<times> comp) list"
  stderr :: "warning list"

text \<open>The loop over the start compounds: no test of \<^verbatim>\<open>comp_limit\<close> is made here.\<close>

fun add_start_comps :: "int \<Rightarrow> comp option list \<Rightarrow> expansion \<Rightarrow> expansion" where
  "add_start_comps C_limit [] st = st"
| "add_start_comps C_limit (None # rest) st = add_start_comps C_limit rest st"
| "add_start_comps C_limit (Some cp # rest) st =
     add_start_comps C_limit rest
       (case comp_id cp of
          None \<Rightarrow> st\<lparr>stderr := stderr st @ [NotValidCompound cp]\<rparr>
        | Some i \<Rightarrow>
            if \<not> LimitCarbon cp C_limit
            then st\<lparr>comp_dict := AList.update i cp (comp_dict st),
                    comps := comps st + 1,
                    stderr := stderr st @ LimitCarbon_err cp\<rparr>
            else st\<lparr>stderr := stderr st @ LimitCarbon_err cp @ [StartExceedsCLimit i]\<rparr>)"

text \<open>
  \<^verbatim>\<open>set(comp_dict.keys()) - extended_comp_ids\<close>, and the reactions of these compounds
  that are neither in \<^verbatim>\<open>rxn_dict\<close> nor known to exceed the limit. Each compound is
  taken with its entry, which is what \<^verbatim>\<open>comp_dict[comp_id]\<close> reads for a key of
  \<^verbatim>\<open>comp_dict\<close>.
\<close>

definition unextended_comp_ids :: "expansion \<Rightarrow> string list" where
  "unextended_comp_ids st =
     remdups (filter (\<lambda>k. k \<notin> extended_comp_ids st) (map fst (comp_dict st)))"

definition rxn_ids_to_download :: "expansion \<Rightarrow> string list" where
  "rxn_ids_to_download st =
     remdups (filter
       (\<lambda>rid. rid \<notin> set (map fst (rxn_dict st)) \<and> rid \<notin> rxn_exceeding_C_limit st)
       (concat (map (\<lambda>(k, cp). ExtractCompReactionIds cp)
          (filter (\<lambda>(k, cp). k \<notin> extended_comp_ids st) (comp_dict st)))))"

definition comp_ids_to_download :: "expansion \<Rightarrow> rxn option list \<Rightarrow> string list" where
  "comp_ids_to_download st new_rxns =
     remdups (filter
       (\<lambda>i. i \<notin> set (map fst (comp_dict st)) \<and> i \<notin> set (map fst (comp_cache st)) \<and>
            i \<notin> comp_exceeding_C_limit st)
       (concat (map (\<lambda>r. case r of None \<Rightarrow> [] | Some r' \<Rightarrow> ExtractReactionCompIds r')
          new_rxns)))"

definition download_err :: "rxn option list \<Rightarrow> warning list" where
  "download_err new_rxns =
     concat (map (\<lambda>r. case r of None \<Rightarrow> [] | Some r' \<Rightarrow> ExtractReactionCompIds_err r')
       new_rxns)"

text \<open>\<^verbatim>\<open>comp_cache[comp_id] = comp\<close> for every compound that came with an id.\<close>

fun cache_comps :: "comp option list \<Rightarrow> expansion \<Rightarrow> expansion" where
  "cache_comps [] st = st"
| "cache_comps (None # rest) st = cache_comps rest st"
| "cache_comps (Some cp # rest) st =
     cache_comps rest
       (case comp_id cp of
          None \<Rightarrow> st\<lparr>stderr := stderr st @ [CompoundLacksId cp]\<rparr>
        | Some i \<Rightarrow> st\<lparr>comp_cache := AList.update i cp (comp_cache st)\<rparr>)"

text \<open>
  The walk over the compounds of one new reaction. A compound that is not in
  \<^verbatim>\<open>comp_dict\<close> and not in the cache is passed by; one that exceeds the limit marks
  itself and the reaction and ends the walk (\<^verbatim>\<open>break\<close>); any other is collected.
\<close>

fun walk_comps ::
  "int \<Rightarrow> string \<Rightarrow> string list \<Rightarrow> expansion \<times> string list \<Rightarrow> expansion \<times> string list" where
  "walk_comps C_limit rid [] (st, new_rxn_comp_ids) = (st, new_rxn_comp_ids)"
| "walk_comps C_limit rid (i # rest) (st, new_rxn_comp_ids) =
     (if i \<notin> set (map fst (comp_dict st)) then
        (case map_of (comp_cache st) i of
           None \<Rightarrow> walk_comps C_limit rid rest (st, new_rxn_comp_ids)
         | Some rxn_comp \<Rightarrow>
             if LimitCarbon rxn_comp C_limit
             then (st\<lparr>comp_exceeding_C_limit := insert i (comp_exceeding_C_limit st),
                      rxn_exceeding_C_limit := insert rid (rxn_exceeding_C_limit st),
                      stderr := stderr st @ LimitCarbon_err rxn_comp\<rparr>,
                   new_rxn_comp_ids)
             else walk_comps C_limit rid rest
                    (st\<lparr>stderr := stderr st @ LimitCarbon_err rxn_comp\<rparr>,
                     List.insert i new_rxn_comp_ids))
      else walk_comps C_limit rid rest (st, new_rxn_comp_ids))"

text \<open>
  The harvest of the collected compounds: each is moved from the cache into
  \<^verbatim>\<open>comp_dict\<close> and counted, and the function returns as soon as the count has
  reached \<^verbatim>\<open>comp_limit\<close> (\<open>True\<close> in the result). \<^verbatim>\<open>comp_cache[new_rxn_comp_id]\<close>
  is outside any \<^verbatim>\<open>try\<close>.
\<close>

fun harvest :: "int \<Rightarrow> string list \<Rightarrow> expansion \<Rightarrow> error + (bool \<times> expansion)" where
  "harvest comp_limit [] st = Inr (False, st)"
| "harvest comp_limit (i # rest) st =
     (case map_of (comp_cache st) i of
        None \<Rightarrow> Inl KeyError
      | Some cp \<Rightarrow>
          (let st' = st\<lparr>comp_dict := AList.update i cp (comp_dict st),
                        comps := comps st + 1\<rparr>
           in if int (comps st') \<ge> comp_limit then Inr (True, st')
              else harvest comp_limit rest st'))"

text \<open>The loop over the new reactions.\<close>

fun explore_rxns ::
  "sched \<Rightarrow> int \<Rightarrow> int \<Rightarrow> rxn option list \<Rightarrow> expansion \<Rightarrow> error + (bool \<times> expansion)" where
  "explore_rxns sched comp_limit C_limit [] st = Inr (False, st)"
| "explore_rxns sched comp_limit C_limit (None # rest) st =
     explore_rxns sched comp_limit C_limit rest st"
| "explore_rxns sched comp_limit C_limit (Some r # rest) st =
     (case rxn_id r of
        None \<Rightarrow>
          explore_rxns sched comp_limit C_limit rest
            (st\<lparr>stderr := stderr st @ [ReactionLacksId r]\<rparr>)
      | Some rid \<Rightarrow>
          (case walk_comps C_limit rid (ExtractReactionCompIds r)
                  (st\<lparr>stderr := stderr st @ ExtractReactionCompIds_err r\<rparr>, []) of
             (st1, new_rxn_comp_ids) \<Rightarrow>
               if rid \<in> rxn_exceeding_C_limit st1
               then explore_rxns sched comp_limit C_limit rest st1
               else
                 (case harvest comp_limit (sched new_rxn_comp_ids)
                         (st1\<lparr>rxn_dict := AList.update rid r (rxn_dict st1)\<rparr>) of
                    Inl e \<Rightarrow> Inl e
                  | Inr (returned, st2) \<Rightarrow>
                      if returned then Inr (True, st2)
                      else explore_rxns sched comp_limit C_limit rest st2)))"

text \<open>One round of the \<^verbatim>\<open>while\<close> loop; \<open>True\<close> when the function has returned in it.\<close>

definition expand_step ::
  "sched \<Rightarrow> (string \<Rightarrow> comp option) \<Rightarrow> (string \<Rightarrow> rxn option) \<Rightarrow> int \<Rightarrow> int \<Rightarrow>
   expansion \<Rightarrow> error + (bool \<times> expansion)" where
  "expand_step sched get_comp get_rxn comp_limit C_limit st =
     (let unextended = unextended_comp_ids st;
          new_rxns = ThreadedGetRxns sched get_rxn (rxn_ids_to_download st);
          new_comps = ThreadedGetComps sched get_comp (comp_ids_to_download st new_rxns);
          st1 = cache_comps new_comps (st\<lparr>stderr := stderr st @ download_err new_rxns\<rparr>)
      in case explore_rxns sched comp_limit C_limit new_rxns st1 of
           Inl e \<Rightarrow> Inl e
         | Inr (returned, st2) \<Rightarrow>
             if returned then Inr (True, st2)
             else Inr (False,
                       st2\<lparr>extended_comp_ids := extended_comp_ids st2 \<union> set unextended\<rparr>))"

text \<open>
  \<^verbatim>\<open>while steps < step_limit\<close> with \<^verbatim>\<open>steps\<close> counting up from 0: the argument is
  the number of rounds that are left.
\<close>

fun expand_loop ::
  "sched \<Rightarrow> (string \<Rightarrow> comp option) \<Rightarrow> (string \<Rightarrow> rxn option) \<Rightarrow> int \<Rightarrow> int \<Rightarrow>
   nat \<Rightarrow> expansion \<Rightarrow> error + expansion" where
  "expand_loop sched get_comp get_rxn comp_limit C_limit 0 st = Inr st"
| "expand_loop sched get_comp get_rxn comp_limit C_limit (Suc n) st =
     (case expand_step sched get_comp get_rxn comp_limit C_limit st of
        Inl e \<Rightarrow> Inl e
      | Inr (returned, st') \<Rightarrow>
          if returned then Inr st'
          else expand_loop sched get_comp get_rxn comp_limit C_limit n st')"

definition start_expansion :: expansion where
  "start_expansion =
     \<lparr>comp_dict = [], rxn_dict = [], comps = 0, extended_comp_ids = {},
      rxn_exceeding_C_limit = {}, comp_exceeding_C_limit = {}, comp_cache = [],
      stderr = []\<rparr>"

text \<open>The whole run, with every variable as it stands when the function returns.\<close>

definition GetRawNetwork_run ::
  "sched \<Rightarrow> (string \<Rightarrow> comp option) \<Rightarrow> (string \<Rightarrow> rxn option) \<Rightarrow>
   string list \<Rightarrow> int \<Rightarrow> int \<Rightarrow> int \<Rightarrow> error + expansion" where
  "GetRawNetwork_run sched get_comp get_rxn comp_id_list step_limit comp_limit C_limit =
     expand_loop sched get_comp get_rxn comp_limit C_limit (nat step_limit)
       (add_start_comps C_limit (ThreadedGetComps sched get_comp comp_id_list)
          start_expansion)"

definition GetRawNetwork ::
  "sched \<Rightarrow> (string \<Rightarrow> comp option) \<Rightarrow> (string \<Rightarrow> rxn option) \<Rightarrow>
   string list \<Rightarrow> int \<Rightarrow> int \<Rightarrow> int \<Rightarrow>
   error + ((string \<times> comp) list \<times> (string \<times> rxn) list)" where
  "GetRawNetwork sched get_comp get_rxn comp_id_list step_limit comp_limit C_limit =
     (case GetRawNetwork_run sched get_comp get_rxn comp_id_list step_limit comp_limit
             C_limit of
        Inl e \<Rightarrow> Inl e
      | Inr st \<Rightarrow> Inr (comp_dict st, rxn_dict st))"

section \<open>Test data\<close>

text \<open>
  Concrete inputs on which the theorems below are tried: the fixtures of the
  repository's own tests where a test has one.
\<close>

definition mk_comp ::
  "string \<Rightarrow> string option \<Rightarrow> string list option \<Rightarrow> string list option \<Rightarrow> comp" where
  "mk_comp i f ri po =
     \<lparr>comp_id = Some i, Formula = f, Reactions = None, Reactant_in = ri, Product_of = po,
      DB_links = None\<rparr>"

definition mk_rxn :: "string \<Rightarrow> (int \<times> string) list \<Rightarrow> (int \<times> string) list \<Rightarrow> rxn" where
  "mk_rxn i rs ps = \<lparr>rxn_id = Some i, Reactants = Some rs, Products = Some ps, RPair = None\<rparr>"

definition mk_node :: "string \<Rightarrow> string \<Rightarrow> node" where
  "mk_node ty m = \<lparr>n_type = ty, n_mid = m, n_start = None, n_c = None\<rparr>"

text \<open>The graph of \<^verbatim>\<open>test_CheckConnection\<close>.\<close>

definition G_check :: graph where
  "G_check =
     \<lparr>nodes = [(1, mk_node ''c'' ''C1''), (2, mk_node ''c'' ''C2''),
               (3, mk_node ''rf'' ''R1''), (4, mk_node ''pf'' ''R1''),
               (5, mk_node ''c'' ''C3''), (6, mk_node ''rr'' ''R1''),
               (7, mk_node ''pr'' ''R1'')],
      edges = {}, cmid2node = None,
      mine_data = Some
        [''C1'' \<mapsto> Compound (mk_comp ''C1'' None (Some [''R1'']) None),
         ''C2'' \<mapsto> Compound (mk_comp ''C2'' None (Some [''R1'']) None),
         ''R1'' \<mapsto> Reaction (mk_rxn ''R1'' [(1, ''C1''), (1, ''C2'')] [(1, ''C3'')]),
         ''C3'' \<mapsto> Compound (mk_comp ''C3'' None None (Some [''R1'']))]\<rparr>"

text \<open>The dictionary of \<^verbatim>\<open>test_ExpandStartCompIds\<close>.\<close>

definition mk_linked :: "string \<Rightarrow> (string \<times> string list) list option \<Rightarrow> comp" where
  "mk_linked i l =
     \<lparr>comp_id = Some i, Formula = None, Reactions = None, Reactant_in = None,
      Product_of = None, DB_links = l\<rparr>"

definition expand_dict :: "(string \<times> comp) list" where
  "expand_dict =
     [(''S1'', mk_linked ''S1'' (Some [(''KEGG'', [''C00001''])])),
      (''S2'', mk_linked ''S2'' (Some [(''KEGG'', [''C00002'', ''C00003''])])),
      (''S3'', mk_linked ''S3'' (Some [])),
      (''S4'', mk_linked ''S4'' None),
      (''C1'', mk_linked ''C1'' (Some [(''KEGG'', [''C00001''])])),
      (''C2'', mk_linked ''C2'' (Some [])),
      (''C3'', mk_linked ''C3'' None),
      (''C4'', mk_linked ''C4'' (Some [(''KEGG'', [''C00002''])])),
      (''X1'', mk_linked ''X1'' (Some [(''KEGG'', [''C00002'', ''C10284''])])),
      (''X5'', mk_linked ''X5'' (Some [(''KEGG'', [''C00006'', ''C00007''])])),
      (''X6'', mk_linked ''X6'' (Some [(''KEGG'', [''C11111''])]))]"

text \<open>A graph without nodes, edges or attributes: \<^verbatim>\<open>nx.DiGraph()\<close>.\<close>

definition G_empty :: graph where
  "G_empty = \<lparr>nodes = [], edges = {}, cmid2node = None, mine_data = None\<rparr>"

text \<open>The two dictionaries of \<^verbatim>\<open>test_SortKeggReactions\<close>.\<close>

definition mk_kegg_comp :: "string \<Rightarrow> string list option \<Rightarrow> string \<Rightarrow> comp" where
  "mk_kegg_comp i rs f =
     \<lparr>comp_id = Some i, Formula = Some f, Reactions = rs, Reactant_in = None,
      Product_of = None, DB_links = None\<rparr>"

definition mk_kegg_rxn ::
  "string \<Rightarrow> (int \<times> string) list \<Rightarrow> (int \<times> string) list \<Rightarrow>
   (string \<times> string \<times> string) list \<Rightarrow> rxn" where
  "mk_kegg_rxn i rs ps rp =
     \<lparr>rxn_id = Some i, Reactants = Some rs, Products = Some ps, RPair = Some rp\<rparr>"

definition kegg_comp_dict :: "(string \<times> comp) list" where
  "kegg_comp_dict =
     [(''C1'', mk_kegg_comp ''C1'' (Some [''R1'', ''R2'']) ''C10H18O2''),
      (''C2'', mk_kegg_comp ''C2'' (Some [''R3'', ''R4'']) ''XeF4''),
      (''C3'', mk_kegg_comp ''C3'' (Some [''R5'', ''R6'']) ''C10H12O3''),
      (''C4'', mk_kegg_comp ''C4'' (Some [''R5'', ''RX'']) ''C2H5O''),
      (''C5'', mk_kegg_comp ''C5'' (Some [''R7'']) ''CH3O''),
      (''C6'', mk_kegg_comp ''C6'' None ''C12'')]"

definition kegg_rxn_dict :: "(string \<times> rxn) list" where
  "kegg_rxn_dict =
     [(''R1'', mk_kegg_rxn ''R1'' [(1, ''C1'')] [(1, ''X1'')] [(''RP1'', ''C1_X1'', ''main'')]),
      (''R2'', mk_kegg_rxn ''R2'' [(1, ''C1''), (1, ''C100'')] [(1, ''C101''), (2, ''C10'')]
                 [(''RP2'', ''C100_C101'', ''main''), (''RP3'', ''C1_C10'', ''cofac'')]),
      (''R3'', mk_kegg_rxn ''R3'' [(1, ''C2'')] [(1, ''X2'')] [(''RP4'', ''C2_X2'', ''main'')]),
      (''R4'', mk_kegg_rxn ''R3'' [(1, ''Z2'')] [(1, ''C2'')] [(''RP5'', ''Z2_C2'', ''main'')]),
      (''R5'', mk_kegg_rxn ''R5'' [(1, ''C3''), (1, ''Z9'')] [(1, ''C4'')]
                 [(''RP6'', ''C3_C4'', ''main''), (''RP7'', ''Z9_C4'', ''trans'')]),
      (''R6'', mk_kegg_rxn ''R6'' [(1, ''C9'')] [(1, ''C8''), (1, ''C3'')]
                 [(''RP8'', ''C9_C3'', ''main'')]),
      (''R7'', mk_kegg_rxn ''R7'' [(1, ''X4'')] [(1, ''Z4'')] [(''RP9'', ''X4_Z4'', ''main'')])]"

text \<open>The graph of \<^verbatim>\<open>test_KeggMineIntegration\<close>, with its \<^verbatim>\<open>mine_data\<close>.\<close>

definition mk_start_node :: "string \<Rightarrow> bool \<Rightarrow> node" where
  "mk_start_node m b = \<lparr>n_type = ''c'', n_mid = m, n_start = Some b, n_c = None\<rparr>"

definition mk_rxn_node :: "string \<Rightarrow> string \<Rightarrow> nat set \<Rightarrow> node" where
  "mk_rxn_node ty m cs = \<lparr>n_type = ty, n_mid = m, n_start = None, n_c = Some cs\<rparr>"

definition mk_mine_comp ::
  "string \<Rightarrow> string list option \<Rightarrow> string list option \<Rightarrow> mine_entry" where
  "mk_mine_comp k ri po =
     Compound \<lparr>comp_id = None, Formula = None, Reactions = None, Reactant_in = ri,
               Product_of = po, DB_links = Some [(''KEGG'', [k])]\<rparr>"

definition empty_rxn :: mine_entry where
  "empty_rxn = Reaction \<lparr>rxn_id = None, Reactants = None, Products = None, RPair = None\<rparr>"

definition G_integration :: graph where
  "G_integration =
     \<lparr>nodes =
        [(1, mk_start_node ''C00001'' True), (2, mk_start_node ''C00002'' False),
         (3, mk_start_node ''C00003'' False), (4, mk_start_node ''C00004'' False),
         (5, mk_start_node ''X490c4e9c5d9c3b903bab41ff596eca62ed06130d'' True),
         (6, mk_start_node ''C683de2716dd472f4da0a144683d31a10e48a45fc'' False),
         (7, mk_start_node ''C069ca544492566919b8c9d20984e55b37a9f79a8'' False),
         (8, mk_start_node ''C123097ef07e00abcd707e873bbd09783da730a38'' False),
         (9, mk_rxn_node ''rf'' ''R00001'' {1}), (10, mk_rxn_node ''pf'' ''R00001'' {3}),
         (11, mk_rxn_node ''rr'' ''R00001'' {3}), (12, mk_rxn_node ''pr'' ''R00001'' {1}),
         (13, mk_rxn_node ''rf'' ''R00002'' {3}), (14, mk_rxn_node ''pf'' ''R00002'' {2}),
         (15, mk_rxn_node ''rr'' ''R00002'' {2}), (16, mk_rxn_node ''pr'' ''R00002'' {3}),
         (17, mk_rxn_node ''rf'' ''Rf2279c67b1b433641502020c3ddd46b911827b88'' {5}),
         (18, mk_rxn_node ''pf'' ''Rf2279c67b1b433641502020c3ddd46b911827b88'' {7}),
         (19, mk_rxn_node ''rr'' ''Rf2279c67b1b433641502020c3ddd46b911827b88'' {7}),
         (20, mk_rxn_node ''pr'' ''Rf2279c67b1b433641502020c3ddd46b911827b88'' {5}),
         (21, mk_rxn_node ''rf'' ''Re9283748451e3dc8254bcd45342926db929b2176'' {6}),
         (22, mk_rxn_node ''pf'' ''Re9283748451e3dc8254bcd45342926db929b2176'' {8}),
         (23, mk_rxn_node ''rr'' ''Re9283748451e3dc8254bcd45342926db929b2176'' {8}),
         (24, mk_rxn_node ''pr'' ''Re9283748451e3dc8254bcd45342926db929b2176'' {6})],
      edges =
        {(1, 9), (9, 10), (10, 3), (3, 11), (11, 12), (12, 1),
         (3, 13), (13, 14), (14, 2), (2, 15), (15, 16), (16, 3),
         (17, 18), (18, 7), (7, 19), (19, 20),
         (6, 21), (21, 22), (22, 8), (8, 23), (23, 24), (24, 6)},
      cmid2node = None,
      mine_data = Some
        [''C00001'' \<mapsto> mk_mine_comp ''C00001'' (Some [''R00001'']) None,
         ''X490c4e9c5d9c3b903bab41ff596eca62ed06130d'' \<mapsto> mk_mine_comp ''C00001'' None None,
         ''C00002'' \<mapsto> mk_mine_comp ''C00002'' None (Some [''R00002'']),
         ''C683de2716dd472f4da0a144683d31a10e48a45fc'' \<mapsto>
            mk_mine_comp ''C00002'' (Some [''Re9283748451e3dc8254bcd45342926db929b2176'']) None,
         ''C00003'' \<mapsto> mk_mine_comp ''C00003'' (Some [''R00002'']) (Some [''R00001'']),
         ''C069ca544492566919b8c9d20984e55b37a9f79a8'' \<mapsto>
            mk_mine_comp ''C00003'' None (Some [''Rf2279c67b1b433641502020c3ddd46b911827b88'']),
         ''C00004'' \<mapsto> mk_mine_comp ''C00004'' None None,
         ''C123097ef07e00abcd707e873bbd09783da730a38'' \<mapsto>
            mk_mine_comp ''C00004'' None (Some [''Re9283748451e3dc8254bcd45342926db929b2176'']),
         ''R00001'' \<mapsto> empty_rxn,
         ''Rf2279c67b1b433641502020c3ddd46b911827b88'' \<mapsto> empty_rxn,
         ''R00002'' \<mapsto> empty_rxn,
         ''Re9283748451e3dc8254bcd45342926db929b2176'' \<mapsto> empty_rxn]\<rparr>"

text \<open>The dictionaries of \<^verbatim>\<open>test_ConstructNetwork\<close>.\<close>

definition network_comp_dict :: "(string \<times> comp) list" where
  "network_comp_dict =
     [(''C1'', mk_comp ''C1'' None (Some [''R99'']) None),
      (''C2'', mk_comp ''C2'' None (Some [''R1e'']) (Some [''R99''])),
      (''C3'', mk_comp ''C3'' None (Some [''Rcd'']) (Some [''R99'', ''Rc3''])),
      (''C4'', mk_comp ''C4'' None None (Some [''R1e''])),
      (''C5'', mk_comp ''C5'' None (Some [''Rc3'', ''R2f'']) (Some [''Rcd'', ''R1e''])),
      (''C6'', mk_comp ''C6'' None None (Some [''Rcd''])),
      (''C7'', mk_comp ''C7'' None None (Some [''R2f'', ''R7f''])),
      (''C8'', mk_comp ''C8'' None (Some [''Rb7'']) (Some [''R2f'']))]"

definition network_rxn_dict :: "(string \<times> rxn) list" where
  "network_rxn_dict =
     [(''R1e'', mk_rxn ''R1e'' [(1, ''C2'')] [(1, ''C4''), (1, ''C5'')]),
      (''R2f'', mk_rxn ''R2f'' [(1, ''C5'')] [(1, ''C7''), (1, ''C8'')]),
      (''R99'', mk_rxn ''R99'' [(1, ''C1'')] [(1, ''C2''), (1, ''C3'')]),
      (''Rc3'', mk_rxn ''Rc3'' [(1, ''C5'')] [(1, ''C3'')]),
      (''Rcd'', mk_rxn ''Rcd'' [(1, ''C3'')] [(1, ''C5''), (1, ''C6'')])]"

text \<open>
  The graph \<^verbatim>\<open>G3\<close> of \<^verbatim>\<open>test_AddQuadReactionNode\<close>, and a graph whose two compound
  nodes are numbered 2 and 3.
\<close>

definition G_quad :: graph where
  "G_quad =
     \<lparr>nodes = [(1, mk_node ''c'' ''C1''), (2, mk_node ''c'' ''C2''), (3, mk_node ''c'' ''C3''),
               (4, mk_node ''c'' ''X1''), (5, mk_node ''c'' ''X2'')],
      edges = {},
      cmid2node = Some [''C1'' \<mapsto> 1, ''C2'' \<mapsto> 2, ''C3'' \<mapsto> 3, ''X1'' \<mapsto> 4, ''X2'' \<mapsto> 5],
      mine_data = Some
        [''R1'' \<mapsto> Reaction (mk_rxn ''R1'' [(1, ''C1''), (1, ''X1'')] [(1, ''C2''), (1, ''X2'')]),
         ''R2'' \<mapsto> Reaction (mk_rxn ''R2'' [(1, ''C2'')] [(1, ''C3'')]),
         ''C1'' \<mapsto> Compound (mk_comp ''C1'' None (Some [''R1'']) None),
         ''C2'' \<mapsto> Compound (mk_comp ''C2'' None (Some [''R2'']) (Some [''R1''])),
         ''C3'' \<mapsto> Compound (mk_comp ''C3'' None None (Some [''R2''])),
         ''X1'' \<mapsto> Compound (mk_comp ''X1'' None None None),
         ''X2'' \<mapsto> Compound (mk_comp ''X2'' None None None)]\<rparr>"

definition G_gap :: graph where
  "G_gap =
     \<lparr>nodes = [(2, mk_node ''c'' ''C1''), (3, mk_node ''c'' ''C2'')],
      edges = {},
      cmid2node = Some [''C1'' \<mapsto> 2, ''C2'' \<mapsto> 3],
      mine_data = None\<rparr>"

text \<open>
  A repository of four compounds and three reactions: \<^verbatim>\<open>A\<close> reacts to \<^verbatim>\<open>B\<close>
  (30 carbons) in \<^verbatim>\<open>R1\<close> and to \<^verbatim>\<open>D\<close> in \<^verbatim>\<open>R2\<close>; \<^verbatim>\<open>D\<close> reacts to \<^verbatim>\<open>E\<close> in
  \<^verbatim>\<open>R3\<close>.
\<close>

definition repo_comps :: "string \<Rightarrow> comp option" where
  "repo_comps =
     map_of
       [(''A'', mk_comp ''A'' (Some ''C2H6'') (Some [''R1'', ''R2'']) None),
        (''B'', mk_comp ''B'' (Some ''C30H62'') None (Some [''R1''])),
        (''D'', mk_comp ''D'' (Some ''C5H12'') (Some [''R3'']) (Some [''R2''])),
        (''E'', mk_comp ''E'' (Some ''C6H14'') None (Some [''R3'']))]"

definition repo_rxns :: "string \<Rightarrow> rxn option" where
  "repo_rxns =
     map_of
       [(''R1'', mk_rxn ''R1'' [(1, ''A'')] [(1, ''B'')]),
        (''R2'', mk_rxn ''R2'' [(1, ''A'')] [(1, ''D'')]),
        (''R3'', mk_rxn ''R3'' [(1, ''D'')] [(1, ''E'')])]"

text \<open>A repository of two compounds without reactions, and one without any reaction.\<close>

definition two_comps :: "string \<Rightarrow> comp option" where
  "two_comps =
     map_of [(''A'', mk_comp ''A'' (Some ''C2H6'') None None),
             (''D'', mk_comp ''D'' (Some ''C5H12'') None None)]"

definition no_rxns :: "string \<Rightarrow> rxn option" where
  "no_rxns = (\<lambda>i. None)"

section \<open>Invariants\<close>

text \<open>
  What holds of every graph that \<^verbatim>\<open>AddCompoundNode\<close> has built from the empty one:
  the nodes are numbered from 1 to their count, and \<^verbatim>\<open>cmid2node\<close>, where it exists,
  sends different ids to different node numbers, all of them in use.
\<close>

definition index_ok :: "graph \<Rightarrow> bool" where
  "index_ok g =
     (fst ` set (nodes g) = {1..length (nodes g)} \<and>
      (case cmid2node g of
         None \<Rightarrow> True
       | Some m \<Rightarrow> inj_on m (dom m) \<and> ran m \<subseteq> {1..length (nodes g)}))"

text \<open>
  What is taken of the surroundings of a run of \<^verbatim>\<open>GetRawNetwork\<close>. A schedule
  rearranges the list it is given. A repository is consistent when the record it answers
  for an id carries that id, if it carries one (\<^verbatim>\<open>get_comps\<close> and \<^verbatim>\<open>get_rxns\<close> of the
  MINE database look records up by \<^verbatim>\<open>_id\<close>).
\<close>

definition perm_sched :: "sched \<Rightarrow> bool" where
  "perm_sched sched = (\<forall>xs. mset (sched xs) = mset xs)"

definition consistent :: "(string \<Rightarrow> 'a option) \<Rightarrow> ('a \<Rightarrow> string option) \<Rightarrow> bool" where
  "consistent get ident = (\<forall>i x k. get i = Some x \<longrightarrow> ident x = Some k \<longrightarrow> k = i)"

text \<open>The ids of the reactions of one download, in the order of the list.\<close>

fun fetched_ids :: "rxn option list \<Rightarrow> string list" where
  "fetched_ids [] = []"
| "fetched_ids (None # rs) = fetched_ids rs"
| "fetched_ids (Some r # rs) =
     (case rxn_id r of None \<Rightarrow> fetched_ids rs | Some i \<Rightarrow> i # fetched_ids rs)"

text \<open>
  The invariant of a run: every compound of \<^verbatim>\<open>comp_dict\<close> is the repository's record for
  its key and is within the carbon limit; every compound of the cache is the
  repository's record for its key; every id in \<^verbatim>\<open>comp_exceeding_C_limit\<close> belongs to a
  record that exceeds the limit; no reaction is both in \<^verbatim>\<open>rxn_dict\<close> and in
  \<^verbatim>\<open>rxn_exceeding_C_limit\<close>. \<open>passes\<close> says of a list of ids that each is cached with
  a compound within the limit.
\<close>

definition passes :: "int \<Rightarrow> expansion \<Rightarrow> string list \<Rightarrow> bool" where
  "passes C_limit st ids =
     (\<forall>i \<in> set ids. \<exists>c. map_of (comp_cache st) i = Some c \<and> \<not> LimitCarbon c C_limit)"

definition run_inv :: "(string \<Rightarrow> comp option) \<Rightarrow> int \<Rightarrow> expansion \<Rightarrow> bool" where
  "run_inv get_comp C_limit st =
     ((\<forall>k c. map_of (comp_dict st) k = Some c \<longrightarrow>
         get_comp k = Some c \<and> \<not> LimitCarbon c C_limit) \<and>
      (\<forall>k c. map_of (comp_cache st) k = Some c \<longrightarrow> get_comp k = Some c) \<and>
      (\<forall>k \<in> comp_exceeding_C_limit st. \<exists>c. get_comp k = Some c \<and> LimitCarbon c C_limit) \<and>
      rxn_exceeding_C_limit st \<inter> fst ` set (rxn_dict st) = {})"

text \<open>The two exclusion sets and the warnings are only ever added to.\<close>

definition grows :: "expansion \<Rightarrow> expansion \<Rightarrow> bool" where
  "grows st st' =
     (comp_exceeding_C_limit st \<subseteq> comp_exceeding_C_limit st' \<and>
      rxn_exceeding_C_limit st \<subseteq> rxn_exceeding_C_limit st' \<and>
      set (stderr st) \<subseteq> set (stderr st'))"

text \<open>
  The count of the compounds while the expansion goes on: \<^verbatim>\<open>comps\<close> is at least the size
  of \<^verbatim>\<open>comp_dict\<close> and has not reached \<^verbatim>\<open>comp_limit\<close>.
\<close>

definition within :: "int \<Rightarrow> expansion \<Rightarrow> bool" where
  "within cl st = (length (comp_dict st) \<le> comps st \<and> int (comps st) < cl)"

section \<open>Properties\<close>

subsection \<open>The carbon count\<close>

lemma py_split_no_sep: "sep \<notin> set s \<Longrightarrow> py_split sep s = [s]"
  by (induction s) auto

lemma takeWhile_digit_no_C: "CHR ''C'' \<notin> set (takeWhile is_digit xs)"
proof
  assume "CHR ''C'' \<in> set (takeWhile is_digit xs)"
  then have "is_digit CHR ''C''" by (rule set_takeWhileD [THEN conjunct2])
  then show False by (simp add: is_digit_def)
qed

lemma decimal_snoc: "decimal (ds @ [d]) = 10 * decimal ds + digit_val d"
proof -
  have up: "rev [0..<Suc (length ds)] = map Suc (rev [0..<length ds]) @ [0]"
    by (simp add: map_Suc_upt rev_map [symmetric] upt_conv_Cons del: upt_Suc)
  have "zip (ds @ [d]) (rev [0..<length (ds @ [d])]) =
          zip ds (map Suc (rev [0..<length ds])) @ [(d, 0)]"
    by (simp add: up del: upt_Suc)
  moreover have "(\<Sum>p\<leftarrow>ps. digit_val (fst p) * (10 * 10 ^ snd p)) =
      10 * (\<Sum>p\<leftarrow>ps. digit_val (fst p) * 10 ^ snd p)" for ps :: "(char \<times> nat) list"
    by (induction ps) (auto simp: algebra_simps)
  ultimately show ?thesis
    by (simp add: decimal_def zip_map2 comp_def case_prod_unfold del: upt_Suc)
qed

lemma foldl_decimal: "foldl (\<lambda>a ch. 10 * a + digit_val ch) 0 ds = decimal ds"
proof (induction ds rule: rev_induct)
  case Nil
  show ?case by (simp add: decimal_def)
next
  case (snoc d ds)
  then show ?case by (simp add: decimal_snoc)
qed

lemma re_search_C_None: "CHR ''C'' \<notin> set formula \<Longrightarrow> re_search_C formula = None"
proof -
  assume "CHR ''C'' \<notin> set formula"
  then have "dropWhile (\<lambda>ch. ch \<noteq> CHR ''C'') formula = []"
    by (simp only: dropWhile_eq_Nil_conv) blast
  then show ?thesis unfolding re_search_C_def by (simp only: list.case)
qed

lemma re_search_C_Some:
  assumes "CHR ''C'' \<in> set formula"
  shows "re_search_C formula =
    Some (CHR ''C'' # takeWhile is_digit (tl (dropWhile (\<lambda>ch. ch \<noteq> CHR ''C'') formula)))"
proof (cases "dropWhile (\<lambda>ch. ch \<noteq> CHR ''C'') formula")
  case Nil
  with assms show ?thesis by (simp only: dropWhile_eq_Nil_conv) blast
next
  case (Cons x xs)
  then have "x = CHR ''C''" using hd_dropWhile [of "\<lambda>ch. ch \<noteq> CHR ''C''" formula] by auto
  with Cons show ?thesis unfolding re_search_C_def by simp
qed

lemma digits_after_C:
  "py_int (py_split CHR ''C'' (CHR ''C'' # takeWhile is_digit xs) ! 1) =
     (if takeWhile is_digit xs = [] then None else Some (decimal (takeWhile is_digit xs)))"
proof -
  have "py_split CHR ''C'' (CHR ''C'' # takeWhile is_digit xs) ! 1 = takeWhile is_digit xs"
    by (simp add: py_split_no_sep [OF takeWhile_digit_no_C])
  moreover have "list_all is_digit (takeWhile is_digit xs)"
    by (simp add: list_all_iff) (meson set_takeWhileD)
  ultimately show ?thesis
    by (simp only: py_int_def foldl_decimal) simp
qed

lemma C_count_spec: "C_count formula = spec_carbon_count formula"
proof (cases "CHR ''C'' \<in> set formula")
  case False
  then show ?thesis
    by (simp add: C_count_def re_search_C_None spec_carbon_count_def)
next
  case True
  show ?thesis
    unfolding C_count_def spec_carbon_count_def re_search_C_Some [OF True]
    by (simp only: digits_after_C option.case Let_def True) simp
qed

subsection \<open>CheckConnection\<close>

lemma listed_in_iff:
  "mine_data g = Some md \<Longrightarrow>
   listed_in field g c_mid r_mid =
     (\<exists>cp l. md c_mid = Some (Compound cp) \<and> field cp = Some l \<and> r_mid \<in> set l)"
  by (auto simp: listed_in_def split: option.splits mine_entry.splits)

text \<open>
  Claim C4. On a graph that carries \<^verbatim>\<open>mine_data\<close>, for a node \<open>c_node\<close> and a
  reaction role node \<open>r_node\<close> of the graph, \<^verbatim>\<open>CheckConnection\<close> returns (it does
  not raise), and what it returns is: for the types \<^verbatim>\<open>rf\<close> and \<^verbatim>\<open>pr\<close>, whether the
  reaction's id is in the \<^verbatim>\<open>Reactant_in\<close> list of the compound's record; for \<^verbatim>\<open>pf\<close>
  and \<^verbatim>\<open>rr\<close>, whether it is in the \<^verbatim>\<open>Product_of\<close> list. A record without the list,
  or no record at all, gives \<^verbatim>\<open>False\<close>.
\<close>

theorem CheckConnection_fidelity:
  assumes md: "mine_data g = Some md"
    and c: "map_of (nodes g) c_node = Some cn"
    and r: "map_of (nodes g) r_node = Some rn"
    and ty: "n_type rn \<in> {''rf'', ''pf'', ''rr'', ''pr''}"
  shows "CheckConnection g c_node r_node =
           Inr (if n_type rn \<in> {''rf'', ''pr''}
                then \<exists>cp l. md (n_mid cn) = Some (Compound cp) \<and>
                       Reactant_in cp = Some l \<and> n_mid rn \<in> set l
                else \<exists>cp l. md (n_mid cn) = Some (Compound cp) \<and>
                       Product_of cp = Some l \<and> n_mid rn \<in> set l)"
  using ty by (auto simp: CheckConnection_def c r listed_in_iff [OF md])

theorem CheckConnection_fidelity_witness:
  "CheckConnection G_check 1 3 = Inr True \<and> CheckConnection G_check 5 6 = Inr True \<and>
   CheckConnection G_check 2 4 = Inr False"
  using CheckConnection_fidelity [of G_check _ 1 _ 3]
    CheckConnection_fidelity [of G_check _ 5 _ 6]
    CheckConnection_fidelity [of G_check _ 2 _ 4]
  by (simp add: G_check_def mk_node_def mk_comp_def)

subsection \<open>ExpandStartCompIds\<close>

text \<open>
  Claim C10. The set \<^verbatim>\<open>ExpandStartCompIds\<close> returns holds every id of the set it was
  given, and every id it holds beyond those is a key of the compound dictionary.
\<close>

theorem ExpandStartCompIds_superset:
  "start_comp_ids \<subseteq> ExpandStartCompIds cd start_comp_ids extra_kegg_ids \<and>
   ExpandStartCompIds cd start_comp_ids extra_kegg_ids - start_comp_ids \<subseteq> set (map fst cd)"
  by (auto simp: ExpandStartCompIds_def Let_def)

text \<open>The assertion of \<^verbatim>\<open>test_ExpandStartCompIds\<close>.\<close>

lemma ExpandStartCompIds_fixture:
  "ExpandStartCompIds expand_dict {''S1'', ''S2'', ''S3'', ''S4''} [''C11111''] =
     {''S1'', ''S2'', ''S3'', ''S4'', ''C1'', ''C4'', ''X1'', ''X6''}"
  by (auto simp: ExpandStartCompIds_def expand_dict_def mk_linked_def kegg_links_def Let_def
        split: if_splits)

subsection \<open>AddCompoundNode\<close>

lemma not_LimitCarbon_0:
  "(\<not> LimitCarbon cp 0) =
     (case Formula cp of None \<Rightarrow> True | Some f \<Rightarrow> spec_carbon_count f = 0)"
  by (simp add: LimitCarbon_def C_count_spec split: option.splits)

lemma start_flag_Inr:
  "start_flag cp mid S = Inr b \<Longrightarrow>
   b = (mid \<in> S \<or> CHR ''C'' # drop 1 mid \<in> S \<or>
        (take 1 mid = ''X'' \<and>
         (case Formula cp of None \<Rightarrow> True | Some f \<Rightarrow> spec_carbon_count f = 0)))"
  by (auto simp: start_flag_def not_LimitCarbon_0 split: if_splits list.splits)

lemma map_of_update_same: "map_of (AList.update k v xs) k = Some v"
  by (simp add: update_conv')

text \<open>
  Claim C8, as amended. A compound with an id that \<^verbatim>\<open>AddCompoundNode\<close> adds becomes
  the node numbered one past the number of nodes, of type \<^verbatim>\<open>c\<close>, with \<^verbatim>\<open>start\<close>
  true exactly when the id is in the start set, or the id with \<^verbatim>\<open>C\<close> for its first
  character is, or the id begins with \<^verbatim>\<open>X\<close> and the compound has zero carbons or no
  formula at all (\<^verbatim>\<open>LimitCarbon\<close> lets a compound without a formula pass any limit).
\<close>

theorem AddCompoundNode_start:
  assumes "AddCompoundNode g compound start_comp_ids = Inr g'"
    and "comp_id compound = Some mid"
  shows "\<exists>nd. map_of (nodes g') (length (nodes g) + 1) = Some nd \<and>
           n_type nd = ''c'' \<and> n_mid nd = mid \<and>
           n_start nd = Some
             (mid \<in> start_comp_ids \<or> CHR ''C'' # drop 1 mid \<in> start_comp_ids \<or>
              (take 1 mid = ''X'' \<and>
               (case Formula compound of
                  None \<Rightarrow> True
                | Some f \<Rightarrow> spec_carbon_count f = 0)))"
proof -
  from assms obtain b where b: "start_flag compound mid start_comp_ids = Inr b"
    and g': "g' = set_cmid2node (add_node g (length (nodes g) + 1) ''c'' mid (Some b) None)
                    mid (length (nodes g) + 1)"
    by (auto simp: AddCompoundNode_def ebind_def Let_def split: sum.splits)
  show ?thesis
    using start_flag_Inr [OF b]
    by (simp add: g' set_cmid2node_def add_node_def map_of_update_same split: option.splits)
qed

theorem AddCompoundNode_start_witness:
  "map_option n_start
     (map_of (nodes (projr (AddCompoundNode G_empty
        (mk_comp ''Xf5dc'' (Some ''C21H28N7O14P2'') None None) {''Cf5dc'', ''C89b3''}))) 1) =
   Some (Some True) \<and>
   map_option n_start
     (map_of (nodes (projr (AddCompoundNode G_empty
        (mk_comp ''C38a9'' (Some ''C6H12O6'') None None) {''Cf5dc'', ''C89b3''}))) 1) =
   Some (Some False) \<and>
   map_option n_start
     (map_of (nodes (projr (AddCompoundNode G_empty
        (mk_comp ''X96ff'' (Some ''H3O4P'') None None) {''Cf5dc'', ''C89b3''}))) 1) =
   Some (Some True)"
proof -
  have a: "start_flag (mk_comp ''Xf5dc'' (Some ''C21H28N7O14P2'') None None) ''Xf5dc''
             {''Cf5dc'', ''C89b3''} = Inr True"
    by code_simp
  have b: "start_flag (mk_comp ''C38a9'' (Some ''C6H12O6'') None None) ''C38a9''
             {''Cf5dc'', ''C89b3''} = Inr False"
    by code_simp
  have c: "start_flag (mk_comp ''X96ff'' (Some ''H3O4P'') None None) ''X96ff''
             {''Cf5dc'', ''C89b3''} = Inr True"
    by code_simp
  have i: "comp_id (mk_comp m f r p) = Some m" for m f r p
    by (simp add: mk_comp_def)
  show ?thesis
    using AddCompoundNode_start [of G_empty "mk_comp ''Xf5dc'' (Some ''C21H28N7O14P2'') None None"
        "{''Cf5dc'', ''C89b3''}" _ "''Xf5dc''"]
      AddCompoundNode_start [of G_empty "mk_comp ''C38a9'' (Some ''C6H12O6'') None None"
        "{''Cf5dc'', ''C89b3''}" _ "''C38a9''"]
      AddCompoundNode_start [of G_empty "mk_comp ''X96ff'' (Some ''H3O4P'') None None"
        "{''Cf5dc'', ''C89b3''}" _ "''X96ff''"]
    by (simp add: AddCompoundNode_def G_empty_def a b c i ebind_def Let_def set_cmid2node_def
          add_node_def)
qed

text \<open>
  Claim C8 as it was stated fails for the compound \<^verbatim>\<open>{'_id': 'X1'}\<close>, which has no
  formula: its node gets \<^verbatim>\<open>start=True\<close>, though the id is in no start set and no
  zero carbon count can be read from a formula.
\<close>

theorem AddCompoundNode_start_counterexample:
  "AddCompoundNode G_empty (mk_comp ''X1'' None None None) {} =
     Inr \<lparr>nodes = [(1, \<lparr>n_type = ''c'', n_mid = ''X1'', n_start = Some True, n_c = None\<rparr>)],
          edges = {}, cmid2node = Some [''X1'' \<mapsto> 1], mine_data = None\<rparr> \<and>
   \<not> claimed_start (mk_comp ''X1'' None None None) ''X1'' {}"
  by (simp add: AddCompoundNode_def G_empty_def mk_comp_def start_flag_def LimitCarbon_def
        ebind_def Let_def set_cmid2node_def add_node_def claimed_start_def)

subsection \<open>SortKeggReactions\<close>

text \<open>
  Claim C9. On the dictionaries of \<^verbatim>\<open>test_SortKeggReactions\<close>, where the ten-carbon
  compound \<^verbatim>\<open>C1\<close> lists \<^verbatim>\<open>R1\<close> and \<^verbatim>\<open>R2\<close>, is a reactant of both and is in
  the \<^verbatim>\<open>cofac\<close> pair \<^verbatim>\<open>C1_C10\<close> of \<^verbatim>\<open>R2\<close>, \<^verbatim>\<open>SortKeggReactions\<close> returns,
  and leaves \<^verbatim>\<open>C1\<close> with \<^verbatim>\<open>Reactant_in\<close> equal to \<^verbatim>\<open>['R1']\<close> and without
  \<^verbatim>\<open>Product_of\<close>.
\<close>

theorem SortKeggReactions_cofactor:
  "(case SortKeggReactions kegg_comp_dict kegg_rxn_dict of
      Inl e \<Rightarrow> None
    | Inr d \<Rightarrow> map_option (\<lambda>cp. (Reactant_in cp, Product_of cp)) (map_of d ''C1'')) =
   Some (Some [''R1''], None)"
  by code_simp

text \<open>The whole dictionary is as the test expects it.\<close>

lemma SortKeggReactions_fixture:
  "(case SortKeggReactions kegg_comp_dict kegg_rxn_dict of
      Inl e \<Rightarrow> []
    | Inr d \<Rightarrow> map (\<lambda>(k, cp). (k, Reactant_in cp, Product_of cp)) d) =
   [(''C1'', Some [''R1''], None), (''C2'', None, None),
    (''C3'', Some [''R5''], Some [''R6'']), (''C4'', None, Some [''R5'']),
    (''C5'', None, None), (''C6'', None, None)]"
  by code_simp

subsection \<open>KeggMineIntegration\<close>

lemma transfer_edges_Inr:
  "transfer_edges kc n ns g = Inr g' \<Longrightarrow>
   filter (\<lambda>(v, nd). n_type nd = ''c'') ns = [] \<and> (ns \<noteq> [] \<longrightarrow> kc \<noteq> 0)"
  by (induction ns arbitrary: n) (auto split: if_splits)

lemma kegg_index_counts:
  "fst (kegg_index g ns (c, m, k)) = c + length (filter (\<lambda>(v, nd). n_type nd = ''c'') ns)"
  by (induction ns arbitrary: c m k) (auto split: option.splits)

text \<open>
  \<^verbatim>\<open>KeggMineIntegration\<close> returns on the graph without nodes and on no other: a
  compound node raises \<^verbatim>\<open>NameError\<close>, and a graph without compound nodes divides by
  a \<^verbatim>\<open>kc_node_count\<close> of zero.
\<close>

lemma KeggMineIntegration_raises:
  assumes "nodes network \<noteq> []"
  shows "\<exists>e. KeggMineIntegration network = Inl e"
proof (cases "KeggMineIntegration network")
  case (Inl e)
  then show ?thesis by blast
next
  case (Inr g')
  obtain c m k where idx: "kegg_index network (nodes network) (0, 0, Map.empty) = (c, m, k)"
    by (cases "kegg_index network (nodes network) (0, 0, Map.empty)") auto
  with Inr have tr: "transfer_edges (c - m) 0 (nodes network) network = Inr g'"
    by (simp add: KeggMineIntegration_def)
  from transfer_edges_Inr [OF tr] assms
  have "filter (\<lambda>(v, nd). n_type nd = ''c'') (nodes network) = []" and "c - m \<noteq> 0"
    by auto
  with kegg_index_counts [of network "nodes network" 0 0 Map.empty] idx show ?thesis by simp
qed

text \<open>
  Claim C3 says that the pass completes without an exception, removes the KEGG nodes
  that have a MINE match and leaves every other compound node as it is. The code does
  not get that far: on the graph of \<^verbatim>\<open>test_KeggMineIntegration\<close>, whose first node is
  the KEGG compound \<^verbatim>\<open>C00001\<close>, it raises \<^verbatim>\<open>NameError\<close> and no node is removed.
\<close>

theorem KeggMineIntegration_NameError: "KeggMineIntegration G_integration = Inl NameError"
  by (simp add: KeggMineIntegration_def G_integration_def mk_start_node_def)

subsection \<open>The graph builders\<close>

lemma update_fresh: "k \<notin> fst ` set xs \<Longrightarrow> AList.update k v xs = xs @ [(k, v)]"
  by (induction xs) auto

lemma map_of_fresh: "k \<notin> fst ` set xs \<Longrightarrow> map_of xs k = None"
  by (simp add: map_of_eq_None_iff)

lemma add_node_fresh:
  assumes "N \<notin> fst ` set (nodes g)"
  shows "add_node g N ty m st cs =
           g\<lparr>nodes := nodes g @ [(N, \<lparr>n_type = ty, n_mid = m, n_start = st, n_c = cs\<rparr>)]\<rparr>"
  by (simp add: add_node_def update_fresh [OF assms] map_of_fresh [OF assms])

lemma add_node_fields [simp]:
  "edges (add_node g N ty m st cs) = edges g"
  "cmid2node (add_node g N ty m st cs) = cmid2node g"
  "mine_data (add_node g N ty m st cs) = mine_data g"
  by (simp_all add: add_node_def)

lemma add_edge_fields [simp]:
  "nodes (add_edge g u v) = nodes g"
  "edges (add_edge g u v) = insert (u, v) (edges g)"
  "cmid2node (add_edge g u v) = cmid2node g"
  "mine_data (add_edge g u v) = mine_data g"
  by (simp_all add: add_edge_def)

lemma connect_Inr:
  "connect into N cs g = Inr g' \<Longrightarrow>
   nodes g' = nodes g \<and> cmid2node g' = cmid2node g \<and> mine_data g' = mine_data g \<and>
   edges g \<subseteq> edges g' \<and>
   edges g' \<subseteq> edges g \<union> (if into then set cs \<times> {N} else {N} \<times> set cs)"
proof (induction cs arbitrary: g)
  case Nil
  then show ?case by simp
next
  case (Cons c cs)
  from Cons.prems obtain b where b: "CheckConnection g c N = Inr b"
    and rest: "connect into N cs
                 (if b then (if into then add_edge g c N else add_edge g N c) else g) = Inr g'"
    by (auto simp: ebind_def split: sum.splits)
  from Cons.IH [OF rest] show ?case by (auto split: if_splits)
qed

lemma CheckConnection_defined:
  "map_of (nodes g) c \<noteq> None \<Longrightarrow> map_of (nodes g) N \<noteq> None \<Longrightarrow>
   \<exists>b. CheckConnection g c N = Inr b"
  by (auto simp: CheckConnection_def)

lemma connect_defined:
  "map_of (nodes g) N \<noteq> None \<Longrightarrow> \<forall>c \<in> set cs. map_of (nodes g) c \<noteq> None \<Longrightarrow>
   \<exists>g'. connect into N cs g = Inr g'"
proof (induction cs arbitrary: g)
  case Nil
  then show ?case by simp
next
  case (Cons c cs)
  then obtain b where b: "CheckConnection g c N = Inr b"
    using CheckConnection_defined [of g c N] by auto
  let ?g = "if b then (if into then add_edge g c N else add_edge g N c) else g"
  have "nodes ?g = nodes g" by simp
  with Cons.prems have "\<exists>g'. connect into N cs ?g = Inr g'"
    by (intro Cons.IH) auto
  with b show ?case by (simp add: ebind_def)
qed

lemma add_quad_cmid2node:
  assumes "add_quad g rid rf pf = Inr g'"
  shows "cmid2node g' = cmid2node g"
proof -
  let ?N = "length (nodes g) + 1"
  from assms obtain g1 g2 g3 g4 where
    1: "connect True ?N rf (add_node g ?N ''rf'' rid None (Some (set rf))) = Inr g1" and
    2: "connect False (?N + 1) pf (add_node g1 (?N + 1) ''pf'' rid None (Some (set pf))) = Inr g2" and
    3: "connect True (?N + 2) pf
          (add_node (add_edge g2 ?N (?N + 1)) (?N + 2) ''rr'' rid None (Some (set pf))) = Inr g3" and
    4: "connect False (?N + 3) rf (add_node g3 (?N + 3) ''pr'' rid None (Some (set rf))) = Inr g4" and
    5: "g' = add_edge g4 (?N + 2) (?N + 3)"
    unfolding add_quad_def ebind_def Let_def by (simp split: sum.splits)
  from connect_Inr [OF 1] connect_Inr [OF 2] connect_Inr [OF 3] connect_Inr [OF 4] 5
  show ?thesis by simp
qed

lemma AddQuadReactionNode_cmid2node:
  assumes "AddQuadReactionNode g r = Inr g'"
  shows "cmid2node g' = cmid2node g"
proof -
  from assms have "g' = g \<or> (\<exists>rid rf pf. add_quad g rid rf pf = Inr g')"
    unfolding AddQuadReactionNode_def Let_def
    by (simp split: option.splits if_splits) blast
  then show ?thesis by (auto dest: add_quad_cmid2node)
qed

lemma add_reactions_cmid2node:
  "add_reactions rd ks g = Inr g' \<Longrightarrow> cmid2node g' = cmid2node g"
proof (induction ks arbitrary: g)
  case Nil
  then show ?case by simp
next
  case (Cons k ks)
  from Cons.prems obtain r g1 where "AddQuadReactionNode g r = Inr g1"
    and "add_reactions rd ks g1 = Inr g'"
    by (auto simp: ebind_def split: option.splits sum.splits)
  with Cons.IH [of g1] AddQuadReactionNode_cmid2node [of g r g1] show ?case by simp
qed

lemma index_ok_AddCompoundNode:
  assumes ok: "index_ok g" and step: "AddCompoundNode g cp S = Inr g'"
  shows "index_ok g'"
proof (cases "comp_id cp")
  case None
  with step ok show ?thesis by (simp add: AddCompoundNode_def)
next
  case (Some mid)
  let ?N = "length (nodes g) + 1"
  from ok have keys: "fst ` set (nodes g) = {1..length (nodes g)}" by (simp add: index_ok_def)
  then have fresh: "?N \<notin> fst ` set (nodes g)" by simp
  from step Some obtain b where
    g': "g' = set_cmid2node (add_node g ?N ''c'' mid (Some b) None) mid ?N"
    by (auto simp: AddCompoundNode_def ebind_def Let_def split: sum.splits)
  have nodes': "nodes g' = nodes g @ [(?N, \<lparr>n_type = ''c'', n_mid = mid, n_start = Some b, n_c = None\<rparr>)]"
    using add_node_fresh [OF fresh] by (simp add: g' set_cmid2node_def)
  have keys': "fst ` set (nodes g') = {1..length (nodes g')}"
    using keys by (auto simp: nodes')
  show ?thesis
  proof (cases "cmid2node g")
    case None
    then have "cmid2node g' = Some [mid \<mapsto> ?N]" by (simp add: g' set_cmid2node_def)
    then show ?thesis using keys' by (auto simp: index_ok_def nodes' inj_on_def ran_def)
  next
    case (Some m)
    with ok have inj: "inj_on m (dom m)" and ran: "ran m \<subseteq> {1..length (nodes g)}"
      by (simp_all add: index_ok_def)
    have c': "cmid2node g' = Some (m(mid \<mapsto> ?N))" using Some by (simp add: g' set_cmid2node_def)
    have "inj_on (m(mid \<mapsto> ?N)) (dom (m(mid \<mapsto> ?N)))"
    proof (rule inj_onI)
      fix x y
      assume x: "x \<in> dom (m(mid \<mapsto> ?N))" and y: "y \<in> dom (m(mid \<mapsto> ?N))"
        and eq: "(m(mid \<mapsto> ?N)) x = (m(mid \<mapsto> ?N)) y"
      have no: "m z \<noteq> Some ?N" for z
      proof
        assume "m z = Some ?N"
        then have "?N \<in> ran m" by (auto simp: ran_def)
        with ran show False by auto
      qed
      show "x = y"
      proof (cases "x = mid")
        case True
        with eq no [of y] show ?thesis by (auto split: if_splits)
      next
        case False
        show ?thesis
        proof (cases "y = mid")
          case True
          with eq no [of x] False show ?thesis by (auto split: if_splits)
        next
          case yf: False
          with False x y eq have "m x = m y" "x \<in> dom m" "y \<in> dom m" by auto
          with inj show ?thesis by (auto dest: inj_onD)
        qed
      qed
    qed
    moreover have "ran (m(mid \<mapsto> ?N)) \<subseteq> {1..length (nodes g')}"
      using ran by (auto simp: ran_def nodes' split: if_splits)
    ultimately show ?thesis using keys' c' by (simp add: index_ok_def)
  qed
qed

lemma index_ok_add_compounds:
  "index_ok g \<Longrightarrow> add_compounds cd S ks g = Inr g' \<Longrightarrow> index_ok g'"
proof (induction ks arbitrary: g)
  case Nil
  then show ?case by simp
next
  case (Cons k ks)
  from Cons.prems(2) obtain cp g1 where "AddCompoundNode g cp S = Inr g1"
    and "add_compounds cd S ks g1 = Inr g'"
    by (auto simp: ebind_def split: option.splits sum.splits)
  with Cons.IH [of g1] index_ok_AddCompoundNode [OF Cons.prems(1), of cp S g1]
  show ?case by simp
qed

text \<open>
  Claim C6. In every graph that \<^verbatim>\<open>ConstructNetwork\<close> returns, \<^verbatim>\<open>cmid2node\<close> is
  injective: two compound ids that it sends to the same node number are the same id.
\<close>

theorem ConstructNetwork_index_injective:
  assumes "ConstructNetwork cd rd start_ids extra_kegg_ids = Inr g"
    and "cmid2node g = Some m"
    and "m x = Some n" and "m y = Some n"
  shows "x = y"
proof -
  let ?g0 = "\<lparr>nodes = [], edges = {}, cmid2node = None, mine_data = Some (merge_data cd rd)\<rparr>"
  from assms(1) obtain g1 where
    g1: "add_compounds cd (ExpandStartCompIds cd (set start_ids) extra_kegg_ids)
           (sort (map fst cd)) ?g0 = Inr g1"
    and g: "add_reactions rd (sort (map fst rd)) g1 = Inr g"
    by (auto simp: ConstructNetwork_def ebind_def Let_def split: sum.splits)
  have "index_ok ?g0" by (simp add: index_ok_def)
  from index_ok_add_compounds [OF this g1] have "index_ok g1" .
  moreover have "cmid2node g1 = Some m"
    using add_reactions_cmid2node [OF g] assms(2) by simp
  ultimately have inj: "inj_on m (dom m)"
    by (simp add: index_ok_def)
  have "m x = m y" "x \<in> dom m" "y \<in> dom m" using assms(3,4) by auto
  with inj show ?thesis by (rule inj_onD)
qed

lemma network_index:
  "(case ConstructNetwork network_comp_dict network_rxn_dict [''C1''] [] of
      Inl e \<Rightarrow> False
    | Inr g \<Rightarrow> (case cmid2node g of None \<Rightarrow> False | Some m \<Rightarrow> m ''C3'' = Some 3))"
  by code_simp

theorem ConstructNetwork_index_injective_witness:
  "\<exists>g m. ConstructNetwork network_comp_dict network_rxn_dict [''C1''] [] = Inr g \<and>
     cmid2node g = Some m \<and> m ''C3'' = Some 3 \<and> (\<forall>y. m y = Some 3 \<longrightarrow> y = ''C3'')"
proof -
  from network_index obtain g m where
    g: "ConstructNetwork network_comp_dict network_rxn_dict [''C1''] [] = Inr g"
    and m: "cmid2node g = Some m" and c3: "m ''C3'' = Some 3"
    by (auto split: sum.splits option.splits)
  have "y = ''C3''" if "m y = Some 3" for y
    using ConstructNetwork_index_injective [OF g m that c3] .
  with g m c3 show ?thesis by blast
qed

lemma key_map_of: "k \<in> fst ` set xs \<Longrightarrow> map_of xs k \<noteq> None"
  by (simp add: map_of_eq_None_iff)

lemma add_quad_fresh:
  fixes g :: graph
  defines "N \<equiv> length (nodes g) + 1"
  assumes fresh: "N \<notin> fst ` set (nodes g)" "N + 1 \<notin> fst ` set (nodes g)"
      "N + 2 \<notin> fst ` set (nodes g)" "N + 3 \<notin> fst ` set (nodes g)"
    and rf: "set rf \<subseteq> fst ` set (nodes g)"
    and pf: "set pf \<subseteq> fst ` set (nodes g)"
  shows "\<exists>g'. add_quad g rid rf pf = Inr g' \<and>
           nodes g' = nodes g @
             [(N, role_node ''rf'' rid (set rf)), (N + 1, role_node ''pf'' rid (set pf)),
              (N + 2, role_node ''rr'' rid (set pf)), (N + 3, role_node ''pr'' rid (set rf))] \<and>
           cmid2node g' = cmid2node g \<and> mine_data g' = mine_data g \<and>
           edges g \<union> {(N, N + 1), (N + 2, N + 3)} \<subseteq> edges g' \<and>
           edges g' \<subseteq> edges g \<union> {(N, N + 1), (N + 2, N + 3)} \<union>
             set rf \<times> {N} \<union> {N + 1} \<times> set pf \<union> set pf \<times> {N + 2} \<union> {N + 3} \<times> set rf"
proof -
  let ?a = "add_node g N ''rf'' rid None (Some (set rf))"
  have a: "?a = g\<lparr>nodes := nodes g @ [(N, role_node ''rf'' rid (set rf))]\<rparr>"
    using add_node_fresh [OF fresh(1)] by (simp add: role_node_def)
  have ka: "fst ` set (nodes ?a) = insert N (fst ` set (nodes g))" by (simp add: a)
  have "\<exists>g1. connect True N rf ?a = Inr g1"
    using rf by (intro connect_defined ballI key_map_of) (auto simp: ka)
  then obtain g1 where 1: "connect True N rf ?a = Inr g1" ..
  note c1 = connect_Inr [OF 1]
  have n1: "nodes g1 = nodes g @ [(N, role_node ''rf'' rid (set rf))]" using c1 by (simp add: a)
  have f1: "Suc N \<notin> fst ` set (nodes g1)" using fresh(2) by (simp add: n1)
  let ?b = "add_node g1 (Suc N) ''pf'' rid None (Some (set pf))"
  have b: "?b = g1\<lparr>nodes := nodes g1 @ [(N + 1, role_node ''pf'' rid (set pf))]\<rparr>"
    using add_node_fresh [OF f1] by (simp add: role_node_def)
  have kb: "fst ` set (nodes ?b) = insert (Suc N) (insert N (fst ` set (nodes g)))"
    by (auto simp: b n1)
  have "\<exists>g2. connect False (Suc N) pf ?b = Inr g2"
    using pf by (intro connect_defined ballI key_map_of) (auto simp: kb)
  then obtain g2 where 2: "connect False (Suc N) pf ?b = Inr g2" ..
  note c2 = connect_Inr [OF 2]
  have n2: "nodes g2 = nodes g1 @ [(N + 1, role_node ''pf'' rid (set pf))]"
    using c2 by (simp add: b)
  let ?e = "add_edge g2 N (Suc N)"
  have f2: "Suc (Suc N) \<notin> fst ` set (nodes ?e)" using fresh(3) by (simp add: n2 n1 numeral_2_eq_2)
  let ?c = "add_node ?e (Suc (Suc N)) ''rr'' rid None (Some (set pf))"
  have c: "?c = ?e\<lparr>nodes := nodes ?e @ [(N + 2, role_node ''rr'' rid (set pf))]\<rparr>"
    using add_node_fresh [OF f2] by (simp add: role_node_def)
  have kc: "fst ` set (nodes ?c) =
      insert (Suc (Suc N)) (insert (Suc N) (insert N (fst ` set (nodes g))))"
    by (auto simp: c n2 n1)
  have "\<exists>g3. connect True (Suc (Suc N)) pf ?c = Inr g3"
    using pf by (intro connect_defined ballI key_map_of) (auto simp: kc)
  then obtain g3 where 3: "connect True (Suc (Suc N)) pf ?c = Inr g3" ..
  note c3 = connect_Inr [OF 3]
  have n3: "nodes g3 = nodes g2 @ [(N + 2, role_node ''rr'' rid (set pf))]"
    using c3 by (simp add: c)
  have f3: "Suc (Suc (Suc N)) \<notin> fst ` set (nodes g3)" using fresh(4) by (simp add: n3 n2 n1 numeral_3_eq_3)
  let ?d = "add_node g3 (Suc (Suc (Suc N))) ''pr'' rid None (Some (set rf))"
  have d: "?d = g3\<lparr>nodes := nodes g3 @ [(N + 3, role_node ''pr'' rid (set rf))]\<rparr>"
    using add_node_fresh [OF f3] by (simp add: role_node_def)
  have kd: "fst ` set (nodes ?d) =
      insert (Suc (Suc (Suc N))) (insert (Suc (Suc N)) (insert (Suc N) (insert N (fst ` set (nodes g)))))"
    by (auto simp: d n3 n2 n1)
  have "\<exists>g4. connect False (Suc (Suc (Suc N))) rf ?d = Inr g4"
    using rf by (intro connect_defined ballI key_map_of) (auto simp: kd)
  then obtain g4 where 4: "connect False (Suc (Suc (Suc N))) rf ?d = Inr g4" ..
  note c4 = connect_Inr [OF 4]
  have n4: "nodes g4 = nodes g3 @ [(N + 3, role_node ''pr'' rid (set rf))]"
    using c4 by (simp add: d)
  let ?g' = "add_edge g4 (N + 2) (N + 3)"
  have res: "add_quad g rid rf pf = Inr ?g'"
    unfolding add_quad_def Let_def N_def [symmetric] using 1 2 3 4
    by (simp add: ebind_def numeral_2_eq_2 numeral_3_eq_3)
  have e1: "edges g \<subseteq> edges g1" "edges g1 \<subseteq> edges g \<union> set rf \<times> {N}"
    using c1 by (simp_all add: a)
  have e2: "edges g1 \<subseteq> edges g2" "edges g2 \<subseteq> edges g1 \<union> {Suc N} \<times> set pf"
    using c2 by (simp_all add: b)
  have e3: "insert (N, Suc N) (edges g2) \<subseteq> edges g3"
    "edges g3 \<subseteq> insert (N, Suc N) (edges g2) \<union> set pf \<times> {Suc (Suc N)}"
    using c3 by (simp_all add: c)
  have e4: "edges g3 \<subseteq> edges g4" "edges g4 \<subseteq> edges g3 \<union> {Suc (Suc (Suc N))} \<times> set rf"
    using c4 by (simp_all add: d)
  have "nodes ?g' = nodes g @
      [(N, role_node ''rf'' rid (set rf)), (N + 1, role_node ''pf'' rid (set pf)),
       (N + 2, role_node ''rr'' rid (set pf)), (N + 3, role_node ''pr'' rid (set rf))]"
    by (simp add: n4 n3 n2 n1 numeral_2_eq_2 numeral_3_eq_3)
  moreover have "cmid2node ?g' = cmid2node g \<and> mine_data ?g' = mine_data g"
    using c1 c2 c3 c4 by simp
  moreover have "edges g \<union> {(N, N + 1), (N + 2, N + 3)} \<subseteq> edges ?g'"
    using e1(1) e2(1) e3(1) e4(1) by (auto simp: numeral_2_eq_2 numeral_3_eq_3)
  moreover have "edges ?g' \<subseteq> edges g \<union> {(N, N + 1), (N + 2, N + 3)} \<union>
      set rf \<times> {N} \<union> {N + 1} \<times> set pf \<union> set pf \<times> {N + 2} \<union> {N + 3} \<times> set rf"
    using e1(2) e2(2) e3(2) e4(2)
    by (simp add: subset_iff numeral_2_eq_2 numeral_3_eq_3) blast
  ultimately show ?thesis using res by blast
qed

lemma set_map_filter: "set (List.map_filter f xs) = {y. \<exists>x \<in> set xs. f x = Some y}"
  by (force simp: List.map_filter_def image_iff)

text \<open>
  Claim C1, as amended. Let the reaction carry an id, a reactant list and a product list.
  If \<^verbatim>\<open>cmid2node\<close> lacks one of the participants (or is missing), the graph is returned
  as it is. If every participant resolves to a node of the graph, and none of the four
  numbers \<^verbatim>\<open>N\<close> to \<^verbatim>\<open>N + 3\<close>, \<^verbatim>\<open>N = len(graph.nodes()) + 1\<close>, is a node yet (as in
  every graph whose nodes are numbered from 1, which is how this program numbers them),
  then the function returns and exactly the four role nodes \<^verbatim>\<open>rf\<close>, \<^verbatim>\<open>pf\<close>, \<^verbatim>\<open>rr\<close>,
  \<^verbatim>\<open>pr\<close> are appended under these numbers; the old nodes, the old edges and the two
  side tables stay; the edges \<^verbatim>\<open>rf\<close> to \<^verbatim>\<open>pf\<close> and \<^verbatim>\<open>rr\<close> to \<^verbatim>\<open>pr\<close> are added;
  and any other new edge joins a role node and one of its compound nodes.
\<close>

theorem AddQuadReactionNode_quad:
  fixes g :: graph
  defines "N \<equiv> length (nodes g) + 1"
  assumes r: "rxn_id r = Some rid" "Reactants r = Some rs" "Products r = Some ps"
  shows "((\<exists>c \<in> snd ` set rs \<union> snd ` set ps. resolve g c = None) \<longrightarrow>
            AddQuadReactionNode g r = Inr g) \<and>
         ((\<forall>c \<in> snd ` set rs \<union> snd ` set ps.
              \<exists>n. resolve g c = Some n \<and> n \<in> fst ` set (nodes g)) \<and>
          {N, N + 1, N + 2, N + 3} \<inter> fst ` set (nodes g) = {} \<longrightarrow>
          (\<exists>g' rf pf.
             AddQuadReactionNode g r = Inr g' \<and>
             rf = {n. \<exists>c \<in> snd ` set rs. resolve g c = Some n} \<and>
             pf = {n. \<exists>c \<in> snd ` set ps. resolve g c = Some n} \<and>
             nodes g' = nodes g @
               [(N, role_node ''rf'' rid rf), (N + 1, role_node ''pf'' rid pf),
                (N + 2, role_node ''rr'' rid pf), (N + 3, role_node ''pr'' rid rf)] \<and>
             cmid2node g' = cmid2node g \<and> mine_data g' = mine_data g \<and>
             edges g \<union> {(N, N + 1), (N + 2, N + 3)} \<subseteq> edges g' \<and>
             edges g' \<subseteq> edges g \<union> {(N, N + 1), (N + 2, N + 3)} \<union>
               rf \<times> {N} \<union> {N + 1} \<times> pf \<union> pf \<times> {N + 2} \<union> {N + 3} \<times> rf))"
proof (intro conjI impI)
  assume "\<exists>c \<in> snd ` set rs \<union> snd ` set ps. resolve g c = None"
  then have "list_ex (\<lambda>c_mid. resolve g c_mid = None) (remdups (map snd rs) @ remdups (map snd ps))"
    by (auto simp: list_ex_iff)
  then show "AddQuadReactionNode g r = Inr g"
    by (simp add: AddQuadReactionNode_def r Let_def)
next
  assume a: "(\<forall>c \<in> snd ` set rs \<union> snd ` set ps.
      \<exists>n. resolve g c = Some n \<and> n \<in> fst ` set (nodes g)) \<and>
    {N, N + 1, N + 2, N + 3} \<inter> fst ` set (nodes g) = {}"
  let ?rf = "remdups (List.map_filter (resolve g) (remdups (map snd rs)))"
  let ?pf = "remdups (List.map_filter (resolve g) (remdups (map snd ps)))"
  have srf: "set ?rf = {n. \<exists>c \<in> snd ` set rs. resolve g c = Some n}"
    by (simp add: set_map_filter)
  have spf: "set ?pf = {n. \<exists>c \<in> snd ` set ps. resolve g c = Some n}"
    by (simp add: set_map_filter)
  from a have no: "\<not> list_ex (\<lambda>c_mid. resolve g c_mid = None)
       (remdups (map snd rs) @ remdups (map snd ps))"
    by (auto simp: list_ex_iff)
  have eq: "AddQuadReactionNode g r = add_quad g rid ?rf ?pf"
    using no by (simp add: AddQuadReactionNode_def r Let_def)
  from a have fresh: "N \<notin> fst ` set (nodes g)" "N + 1 \<notin> fst ` set (nodes g)"
    "N + 2 \<notin> fst ` set (nodes g)" "N + 3 \<notin> fst ` set (nodes g)"
    by auto
  have known: "n \<in> fst ` set (nodes g)"
    if "c \<in> snd ` set rs \<union> snd ` set ps" and "resolve g c = Some n" for c n
  proof -
    from a that(1) obtain n' where "resolve g c = Some n'" and "n' \<in> fst ` set (nodes g)"
      by blast
    with that(2) show ?thesis by simp
  qed
  have inrf: "set ?rf \<subseteq> fst ` set (nodes g)" unfolding srf using known by blast
  have inpf: "set ?pf \<subseteq> fst ` set (nodes g)" unfolding spf using known by blast
  from add_quad_fresh [OF fresh [unfolded N_def] inrf inpf, of rid, folded N_def]
  show "\<exists>g' rf pf.
      AddQuadReactionNode g r = Inr g' \<and>
      rf = {n. \<exists>c \<in> snd ` set rs. resolve g c = Some n} \<and>
      pf = {n. \<exists>c \<in> snd ` set ps. resolve g c = Some n} \<and>
      nodes g' = nodes g @
        [(N, role_node ''rf'' rid rf), (N + 1, role_node ''pf'' rid pf),
         (N + 2, role_node ''rr'' rid pf), (N + 3, role_node ''pr'' rid rf)] \<and>
      cmid2node g' = cmid2node g \<and> mine_data g' = mine_data g \<and>
      edges g \<union> {(N, N + 1), (N + 2, N + 3)} \<subseteq> edges g' \<and>
      edges g' \<subseteq> edges g \<union> {(N, N + 1), (N + 2, N + 3)} \<union>
        rf \<times> {N} \<union> {N + 1} \<times> pf \<union> pf \<times> {N + 2} \<union> {N + 3} \<times> rf"
    unfolding eq srf [symmetric] spf [symmetric] by blast
qed


theorem AddQuadReactionNode_quad_witness:
  "AddQuadReactionNode G_quad (mk_rxn ''R9'' [(1, ''C1'')] [(1, ''Q1'')]) = Inr G_quad \<and>
   (\<exists>g'. AddQuadReactionNode G_quad
            (mk_rxn ''R1'' [(1, ''C1''), (1, ''X1'')] [(1, ''C2''), (1, ''X2'')]) = Inr g' \<and>
         nodes g' = nodes G_quad @
           [(6, role_node ''rf'' ''R1'' {1, 4}), (7, role_node ''pf'' ''R1'' {2, 5}),
            (8, role_node ''rr'' ''R1'' {2, 5}), (9, role_node ''pr'' ''R1'' {1, 4})] \<and>
         {(6, 7), (8, 9)} \<subseteq> edges g')"
proof
  show "AddQuadReactionNode G_quad (mk_rxn ''R9'' [(1, ''C1'')] [(1, ''Q1'')]) = Inr G_quad"
    using AddQuadReactionNode_quad [of "mk_rxn ''R9'' [(1, ''C1'')] [(1, ''Q1'')]" "''R9''"
        "[(1, ''C1'')]" "[(1, ''Q1'')]" G_quad]
    by (simp add: mk_rxn_def resolve_def G_quad_def)
next
  have rf: "{n. \<exists>c \<in> snd ` set [(1::int, ''C1''), (1, ''X1'')]. resolve G_quad c = Some n} = {1, 4}"
    by (auto simp: resolve_def G_quad_def)
  have pf: "{n. \<exists>c \<in> snd ` set [(1::int, ''C2''), (1, ''X2'')]. resolve G_quad c = Some n} = {2, 5}"
    by (auto simp: resolve_def G_quad_def)
  have len: "length (nodes G_quad) + 1 = 6" by (simp add: G_quad_def)
  have pre: "(\<forall>c \<in> snd ` set [(1::int, ''C1''), (1, ''X1'')] \<union> snd ` set [(1::int, ''C2''), (1, ''X2'')].
                \<exists>n. resolve G_quad c = Some n \<and> n \<in> fst ` set (nodes G_quad)) \<and>
             {6, 6 + 1, 6 + 2, 6 + 3} \<inter> fst ` set (nodes G_quad) = {}"
    by (simp add: resolve_def G_quad_def)
  from AddQuadReactionNode_quad [of "mk_rxn ''R1'' [(1, ''C1''), (1, ''X1'')] [(1, ''C2''), (1, ''X2'')]"
      "''R1''" "[(1, ''C1''), (1, ''X1'')]" "[(1, ''C2''), (1, ''X2'')]" G_quad,
      unfolded rf pf len, THEN conjunct2, rule_format, OF _ _ _ pre]
  show "\<exists>g'. AddQuadReactionNode G_quad
            (mk_rxn ''R1'' [(1, ''C1''), (1, ''X1'')] [(1, ''C2''), (1, ''X2'')]) = Inr g' \<and>
         nodes g' = nodes G_quad @
           [(6, role_node ''rf'' ''R1'' {1, 4}), (7, role_node ''pf'' ''R1'' {2, 5}),
            (8, role_node ''rr'' ''R1'' {2, 5}), (9, role_node ''pr'' ''R1'' {1, 4})] \<and>
         {(6, 7), (8, 9)} \<subseteq> edges g'"
    by (auto simp: mk_rxn_def)
qed

text \<open>
  Claim C1 as it was stated (for every graph) fails on a graph whose node numbers are
  not 1 to n. With the compound nodes 2 and 3, both participants resolve to nodes of the
  graph, yet \<^verbatim>\<open>N\<close> is 3: the compound node 3 is overwritten by the \<^verbatim>\<open>rf\<close> node, and
  the graph has three nodes more than before, not four.
\<close>

theorem AddQuadReactionNode_quad_counterexample:
  "resolve G_gap ''C1'' = Some 2 \<and> resolve G_gap ''C2'' = Some 3 \<and>
   map fst (nodes G_gap) = [2, 3] \<and>
   (case AddQuadReactionNode G_gap (mk_rxn ''R1'' [(1, ''C1'')] [(1, ''C2'')]) of
      Inl e \<Rightarrow> []
    | Inr g' \<Rightarrow> map (\<lambda>(k, nd). (k, n_type nd, n_mid nd)) (nodes g')) =
   [(2, ''c'', ''C1''), (3, ''rf'', ''R1''), (4, ''pf'', ''R1''), (5, ''rr'', ''R1''),
    (6, ''pr'', ''R1'')]"
  by code_simp

subsection \<open>GetRawNetwork\<close>

lemma perm_sched_set: "perm_sched sched \<Longrightarrow> set (sched xs) = set xs"
  unfolding perm_sched_def using mset_eq_setD [of "sched xs" xs] by simp

lemma perm_sched_distinct: "perm_sched sched \<Longrightarrow> distinct xs \<Longrightarrow> distinct (sched xs)"
  unfolding perm_sched_def using mset_eq_imp_distinct_iff [of "sched xs" xs] by simp

lemma perm_sched_Nil: "perm_sched sched \<Longrightarrow> sched [] = []"
proof -
  assume "perm_sched sched"
  then have "mset (sched []) = mset []" unfolding perm_sched_def by blast
  then show ?thesis by simp
qed

lemma perm_sched_single: "perm_sched sched \<Longrightarrow> sched [x] = [x]"
proof -
  assume "perm_sched sched"
  then have "mset (sched [x]) = mset [x]" unfolding perm_sched_def by blast
  then show ?thesis by simp
qed

lemma fetched_ids_consistent:
  assumes "consistent get_rxn rxn_id"
  shows "distinct xs \<Longrightarrow> distinct (fetched_ids (map get_rxn xs)) \<and>
         set (fetched_ids (map get_rxn xs)) \<subseteq> set xs"
proof (induction xs)
  case Nil
  then show ?case by simp
next
  case (Cons x xs)
  then have IH: "distinct (fetched_ids (map get_rxn xs))"
    "set (fetched_ids (map get_rxn xs)) \<subseteq> set xs" and x: "x \<notin> set xs"
    by auto
  show ?case
  proof (cases "get_rxn x")
    case None
    with IH show ?thesis by auto
  next
    case (Some r)
    show ?thesis
    proof (cases "rxn_id r")
      case None
      with Some IH show ?thesis by auto
    next
      case (Some i)
      with \<open>get_rxn x = Some r\<close> assms have "i = x" by (auto simp: consistent_def)
      with Some \<open>get_rxn x = Some r\<close> IH x show ?thesis by auto
    qed
  qed
qed

lemma run_inv_other_fields [simp]:
  "run_inv gc C (st\<lparr>comps := n\<rparr>) = run_inv gc C st"
  "run_inv gc C (st\<lparr>stderr := w\<rparr>) = run_inv gc C st"
  "run_inv gc C (st\<lparr>extended_comp_ids := e\<rparr>) = run_inv gc C st"
  by (simp_all add: run_inv_def)

lemma run_inv_comp_dict:
  assumes "run_inv gc C st" and "gc i = Some cp" and "\<not> LimitCarbon cp C"
  shows "run_inv gc C (st\<lparr>comp_dict := AList.update i cp (comp_dict st)\<rparr>)"
  using assms by (simp add: run_inv_def update_conv')

lemma run_inv_comp_cache:
  assumes "run_inv gc C st" and "gc i = Some cp"
  shows "run_inv gc C (st\<lparr>comp_cache := AList.update i cp (comp_cache st)\<rparr>)"
  using assms by (simp add: run_inv_def update_conv')

lemma run_inv_rxn_dict:
  assumes "run_inv gc C st" and "rid \<notin> rxn_exceeding_C_limit st"
  shows "run_inv gc C (st\<lparr>rxn_dict := AList.update rid r (rxn_dict st)\<rparr>)"
  using assms by (auto simp: run_inv_def dom_update)

lemma run_inv_exceeding:
  assumes "run_inv gc C st" and "gc i = Some cp" and "LimitCarbon cp C"
    and "rid \<notin> fst ` set (rxn_dict st)"
  shows "run_inv gc C
           (st\<lparr>comp_exceeding_C_limit := insert i (comp_exceeding_C_limit st),
               rxn_exceeding_C_limit := insert rid (rxn_exceeding_C_limit st)\<rparr>)"
  using assms by (auto simp: run_inv_def)

lemma consistentD: "consistent get ident \<Longrightarrow> get x = Some c \<Longrightarrow> ident c = Some i \<Longrightarrow> get i = Some c"
  by (auto simp: consistent_def)

lemma run_inv_add_start_comps:
  assumes cons: "consistent gc comp_id"
  shows "\<forall>c. Some c \<in> set cs \<longrightarrow> (\<exists>x. gc x = Some c) \<Longrightarrow> run_inv gc C st \<Longrightarrow>
         run_inv gc C (add_start_comps C cs st)"
proof (induction C cs st rule: add_start_comps.induct)
  case (1 C st)
  then show ?case by simp
next
  case (2 C rest st)
  then show ?case by simp
next
  case (3 C cp rest st)
  from "3.prems"(1) obtain x where x: "gc x = Some cp" by auto
  let ?st = "case comp_id cp of
          None \<Rightarrow> st\<lparr>stderr := stderr st @ [NotValidCompound cp]\<rparr>
        | Some i \<Rightarrow>
            if \<not> LimitCarbon cp C
            then st\<lparr>comp_dict := AList.update i cp (comp_dict st),
                    comps := comps st + 1,
                    stderr := stderr st @ LimitCarbon_err cp\<rparr>
            else st\<lparr>stderr := stderr st @ LimitCarbon_err cp @ [StartExceedsCLimit i]\<rparr>"
  have "run_inv gc C ?st"
  proof (cases "comp_id cp")
    case None
    with "3.prems"(2) show ?thesis by simp
  next
    case (Some i)
    from consistentD [OF cons x Some] have gi: "gc i = Some cp" .
    show ?thesis
    proof (cases "LimitCarbon cp C")
      case True
      with Some "3.prems"(2) show ?thesis by simp
    next
      case False
      from run_inv_comp_dict [OF "3.prems"(2) gi False] Some False show ?thesis by simp
    qed
  qed
  moreover from "3.prems"(1) have "\<forall>c. Some c \<in> set rest \<longrightarrow> (\<exists>x. gc x = Some c)" by auto
  ultimately have "run_inv gc C (add_start_comps C rest ?st)" by (rule "3.IH" [rotated])
  then show ?case by simp
qed

lemma run_inv_cache_comps:
  assumes cons: "consistent gc comp_id"
  shows "\<forall>c. Some c \<in> set cs \<longrightarrow> (\<exists>x. gc x = Some c) \<Longrightarrow> run_inv gc C st \<Longrightarrow>
         run_inv gc C (cache_comps cs st)"
proof (induction cs st rule: cache_comps.induct)
  case (1 st)
  then show ?case by simp
next
  case (2 rest st)
  then show ?case by simp
next
  case (3 cp rest st)
  from "3.prems"(1) obtain x where x: "gc x = Some cp" by auto
  let ?st = "case comp_id cp of
          None \<Rightarrow> st\<lparr>stderr := stderr st @ [CompoundLacksId cp]\<rparr>
        | Some i \<Rightarrow> st\<lparr>comp_cache := AList.update i cp (comp_cache st)\<rparr>"
  have "run_inv gc C ?st"
  proof (cases "comp_id cp")
    case None
    with "3.prems"(2) show ?thesis by simp
  next
    case (Some i)
    from consistentD [OF cons x Some] have gi: "gc i = Some cp" .
    from run_inv_comp_cache [OF "3.prems"(2) gi] Some show ?thesis by simp
  qed
  moreover from "3.prems"(1) have "\<forall>c. Some c \<in> set rest \<longrightarrow> (\<exists>x. gc x = Some c)" by auto
  ultimately have "run_inv gc C (cache_comps rest ?st)" by (rule "3.IH" [rotated])
  then show ?case by simp
qed

lemma cache_comps_fields [simp]:
  "comp_dict (cache_comps cs st) = comp_dict st"
  "rxn_dict (cache_comps cs st) = rxn_dict st"
  "comps (cache_comps cs st) = comps st"
  "extended_comp_ids (cache_comps cs st) = extended_comp_ids st"
  "rxn_exceeding_C_limit (cache_comps cs st) = rxn_exceeding_C_limit st"
  "comp_exceeding_C_limit (cache_comps cs st) = comp_exceeding_C_limit st"
  by (induction cs st rule: cache_comps.induct; simp split: option.splits)+

lemma passes_cong:
  "comp_cache st' = comp_cache st \<Longrightarrow> passes C st' ids = passes C st ids"
  by (simp add: passes_def)

lemma walk_comps_inv:
  "walk_comps C rid ids (st, new) = (st', new') \<Longrightarrow> run_inv gc C st \<Longrightarrow>
   rid \<notin> fst ` set (rxn_dict st) \<Longrightarrow> passes C st new \<Longrightarrow>
   run_inv gc C st' \<and> passes C st' new' \<and> comp_dict st' = comp_dict st \<and>
   rxn_dict st' = rxn_dict st \<and> comp_cache st' = comp_cache st \<and> comps st' = comps st \<and>
   extended_comp_ids st' = extended_comp_ids st"
proof (induction ids arbitrary: st new)
  case Nil
  then show ?case by simp
next
  case (Cons i ids)
  show ?case
  proof (cases "i \<in> set (map fst (comp_dict st))")
    case True
    with Cons.prems(1) have "walk_comps C rid ids (st, new) = (st', new')" by simp
    from Cons.IH [OF this Cons.prems(2-4)] show ?thesis .
  next
    case False
    show ?thesis
    proof (cases "map_of (comp_cache st) i")
      case None
      with False Cons.prems(1) have "walk_comps C rid ids (st, new) = (st', new')" by simp
      from Cons.IH [OF this Cons.prems(2-4)] show ?thesis .
    next
      case (Some cp)
      from Cons.prems(2) Some have gi: "gc i = Some cp" by (simp add: run_inv_def)
      show ?thesis
      proof (cases "LimitCarbon cp C")
        case True
        with False Some Cons.prems(1) have
          st': "st' = st\<lparr>comp_exceeding_C_limit := insert i (comp_exceeding_C_limit st),
                      rxn_exceeding_C_limit := insert rid (rxn_exceeding_C_limit st),
                      stderr := stderr st @ LimitCarbon_err cp\<rparr>"
          and new': "new' = new" by simp_all
        have "run_inv gc C st'"
          unfolding st' using run_inv_exceeding [OF Cons.prems(2) gi True Cons.prems(3)] by simp
        moreover have "passes C st' new'"
          using Cons.prems(4) by (simp add: st' new' passes_def)
        ultimately show ?thesis by (simp add: st')
      next
        case nl: False
        let ?st = "st\<lparr>stderr := stderr st @ LimitCarbon_err cp\<rparr>"
        from False Some nl Cons.prems(1)
        have w: "walk_comps C rid ids (?st, List.insert i new) = (st', new')" by simp
        have 1: "run_inv gc C ?st" using Cons.prems(2) by simp
        have 2: "rid \<notin> fst ` set (rxn_dict ?st)" using Cons.prems(3) by simp
        have 3: "passes C ?st (List.insert i new)"
          using Cons.prems(4) Some nl by (auto simp: passes_def)
        from Cons.IH [OF w 1 2 3] show ?thesis by simp
      qed
    qed
  qed
qed

lemma harvest_inv:
  "run_inv gc C st \<Longrightarrow> passes C st ids \<Longrightarrow>
   \<exists>b st'. harvest cl ids st = Inr (b, st') \<and> run_inv gc C st' \<and>
     rxn_dict st' = rxn_dict st \<and> comp_cache st' = comp_cache st \<and>
     rxn_exceeding_C_limit st' = rxn_exceeding_C_limit st"
proof (induction ids arbitrary: st)
  case Nil
  then show ?case by auto
next
  case (Cons i ids)
  from Cons.prems(2) obtain cp where cp: "map_of (comp_cache st) i = Some cp"
    and nl: "\<not> LimitCarbon cp C" by (auto simp: passes_def)
  from Cons.prems(1) cp have gi: "gc i = Some cp" by (simp add: run_inv_def)
  let ?st = "st\<lparr>comp_dict := AList.update i cp (comp_dict st), comps := comps st + 1\<rparr>"
  have 1: "run_inv gc C ?st" using run_inv_comp_dict [OF Cons.prems(1) gi nl] by simp
  have 2: "passes C ?st ids" using Cons.prems(2) by (simp add: passes_def)
  show ?case
  proof (cases "int (comps ?st) \<ge> cl")
    case True
    with cp 1 show ?thesis by (auto simp: Let_def)
  next
    case False
    from Cons.IH [OF 1 2] obtain b st' where "harvest cl ids ?st = Inr (b, st')"
      and "run_inv gc C st'" and "rxn_dict st' = rxn_dict ?st"
      and "comp_cache st' = comp_cache ?st"
      and "rxn_exceeding_C_limit st' = rxn_exceeding_C_limit ?st" by blast
    with cp False show ?thesis by (auto simp: Let_def)
  qed
qed

lemma explore_rxns_inv:
  assumes perm: "perm_sched sched"
  shows "run_inv gc C st \<Longrightarrow> distinct (fetched_ids rs) \<Longrightarrow>
         set (fetched_ids rs) \<inter> fst ` set (rxn_dict st) = {} \<Longrightarrow>
         \<exists>b st'. explore_rxns sched cl C rs st = Inr (b, st') \<and> run_inv gc C st'"
proof (induction rs arbitrary: st)
  case Nil
  then show ?case by auto
next
  case (Cons ro rs)
  show ?case
  proof (cases ro)
    case None
    with Cons show ?thesis by simp
  next
    case (Some r)
    show ?thesis
    proof (cases "rxn_id r")
      case None
      let ?st = "st\<lparr>stderr := stderr st @ [ReactionLacksId r]\<rparr>"
      from Cons.prems None Some have "run_inv gc C ?st" "distinct (fetched_ids rs)"
        "set (fetched_ids rs) \<inter> fst ` set (rxn_dict ?st) = {}" by simp_all
      from Cons.IH [OF this] None Some show ?thesis by auto
    next
      case (Some rid)
      note ro = \<open>ro = Some r\<close>
      from Cons.prems(2,3) ro Some have d: "distinct (fetched_ids rs)"
        and nr: "rid \<notin> set (fetched_ids rs)" and nd: "rid \<notin> fst ` set (rxn_dict st)"
        and dj: "set (fetched_ids rs) \<inter> fst ` set (rxn_dict st) = {}" by auto
      let ?st0 = "st\<lparr>stderr := stderr st @ ExtractReactionCompIds_err r\<rparr>"
      obtain st1 new where w: "walk_comps C rid (ExtractReactionCompIds r) (?st0, []) = (st1, new)"
        by (cases "walk_comps C rid (ExtractReactionCompIds r) (?st0, [])") auto
      have "run_inv gc C ?st0" "rid \<notin> fst ` set (rxn_dict ?st0)" "passes C ?st0 []"
        using Cons.prems(1) nd by (simp_all add: passes_def)
      from walk_comps_inv [OF w this] have i1: "run_inv gc C st1" and p1: "passes C st1 new"
        and r1: "rxn_dict st1 = rxn_dict st" by simp_all
      show ?thesis
      proof (cases "rid \<in> rxn_exceeding_C_limit st1")
        case True
        from dj r1 have "set (fetched_ids rs) \<inter> fst ` set (rxn_dict st1) = {}" by simp
        from Cons.IH [OF i1 d this] ro Some w True show ?thesis by auto
      next
        case False
        let ?st2 = "st1\<lparr>rxn_dict := AList.update rid r (rxn_dict st1)\<rparr>"
        have i2: "run_inv gc C ?st2" using run_inv_rxn_dict [OF i1 False] .
        have p2: "passes C ?st2 (sched new)"
          using p1 by (simp add: passes_def perm_sched_set [OF perm])
        from harvest_inv [OF i2 p2, of cl] obtain b st3 where
          h: "harvest cl (sched new) ?st2 = Inr (b, st3)" and i3: "run_inv gc C st3"
          and r3: "rxn_dict st3 = rxn_dict ?st2" by blast
        show ?thesis
        proof (cases b)
          case True
          with ro Some w False h i3 show ?thesis by auto
        next
          case nb: False
          have "set (fetched_ids rs) \<inter> fst ` set (rxn_dict st3) = {}"
            using dj nr by (auto simp: r3 r1 dom_update)
          from Cons.IH [OF i3 d this] ro Some w False h nb show ?thesis by auto
        qed
      qed
    qed
  qed
qed

lemma fetched_from_repository: "\<forall>c. Some c \<in> set (map gc xs) \<longrightarrow> (\<exists>x. gc x = Some c)"
  by auto

lemma rxn_ids_to_download_new:
  "distinct (rxn_ids_to_download st) \<and>
   set (rxn_ids_to_download st) \<inter> fst ` set (rxn_dict st) = {}"
  by (auto simp: rxn_ids_to_download_def)

lemma expand_step_inv:
  assumes perm: "perm_sched sched" and cc: "consistent gc comp_id"
    and cr: "consistent gr rxn_id" and inv: "run_inv gc C st"
  shows "\<exists>b st'. expand_step sched gc gr cl C st = Inr (b, st') \<and> run_inv gc C st'"
proof -
  let ?rxns = "ThreadedGetRxns sched gr (rxn_ids_to_download st)"
  let ?comps = "ThreadedGetComps sched gc (comp_ids_to_download st ?rxns)"
  let ?st1 = "cache_comps ?comps (st\<lparr>stderr := stderr st @ download_err ?rxns\<rparr>)"
  have d: "distinct (sched (rxn_ids_to_download st))"
    using rxn_ids_to_download_new [of st] by (simp add: perm_sched_distinct [OF perm])
  from fetched_ids_consistent [OF cr d]
  have f: "distinct (fetched_ids ?rxns)"
    "set (fetched_ids ?rxns) \<subseteq> set (rxn_ids_to_download st)"
    by (simp_all add: ThreadedGetRxns_def perm_sched_set [OF perm])
  have i1: "run_inv gc C ?st1"
    unfolding ThreadedGetComps_def
    by (rule run_inv_cache_comps [OF cc fetched_from_repository]) (simp add: inv)
  have dj: "set (fetched_ids ?rxns) \<inter> fst ` set (rxn_dict ?st1) = {}"
    using f(2) rxn_ids_to_download_new [of st] by auto
  from explore_rxns_inv [OF perm i1 f(1) dj, of cl] obtain b st2 where
    e: "explore_rxns sched cl C ?rxns ?st1 = Inr (b, st2)" and i2: "run_inv gc C st2" by blast
  show ?thesis
    unfolding expand_step_def Let_def using e i2 by (cases b) auto
qed

lemma expand_loop_inv:
  assumes perm: "perm_sched sched" and cc: "consistent gc comp_id"
    and cr: "consistent gr rxn_id"
  shows "run_inv gc C st \<Longrightarrow>
         \<exists>st'. expand_loop sched gc gr cl C n st = Inr st' \<and> run_inv gc C st'"
proof (induction n arbitrary: st)
  case 0
  then show ?case by simp
next
  case (Suc n)
  from expand_step_inv [OF perm cc cr Suc.prems, of cl] obtain b st1 where
    s: "expand_step sched gc gr cl C st = Inr (b, st1)" and i: "run_inv gc C st1" by blast
  show ?case
  proof (cases b)
    case True
    with s i show ?thesis by simp
  next
    case False
    from Suc.IH [OF i] s False show ?thesis by simp
  qed
qed

lemma run_inv_start: "run_inv gc C start_expansion"
  by (simp add: run_inv_def start_expansion_def)

lemma GetRawNetwork_run_inv:
  assumes perm: "perm_sched sched" and cc: "consistent gc comp_id"
    and cr: "consistent gr rxn_id"
  shows "\<exists>st. GetRawNetwork_run sched gc gr ids sl cl C = Inr st \<and> run_inv gc C st"
  unfolding GetRawNetwork_run_def ThreadedGetComps_def
  by (intro expand_loop_inv [OF perm cc cr]
        run_inv_add_start_comps [OF cc fetched_from_repository] run_inv_start)

lemma run_inv_disjoint:
  assumes "run_inv gc C st"
  shows "comp_exceeding_C_limit st \<inter> fst ` set (comp_dict st) = {} \<and>
         rxn_exceeding_C_limit st \<inter> fst ` set (rxn_dict st) = {}"
proof -
  have False if "k \<in> comp_exceeding_C_limit st" and "k \<in> fst ` set (comp_dict st)" for k
  proof -
    from that(2) obtain c where "map_of (comp_dict st) k = Some c"
      by (metis map_of_eq_None_iff not_None_eq)
    with assms have "gc k = Some c" "\<not> LimitCarbon c C" by (simp_all add: run_inv_def)
    moreover from that(1) assms obtain c' where "gc k = Some c'" "LimitCarbon c' C"
      unfolding run_inv_def by blast
    ultimately show False by simp
  qed
  moreover from assms have "rxn_exceeding_C_limit st \<inter> fst ` set (rxn_dict st) = {}"
    by (simp add: run_inv_def)
  ultimately show ?thesis by blast
qed

lemma grows_refl [simp]: "grows st st"
  by (simp add: grows_def)

lemma grows_trans: "grows a b \<Longrightarrow> grows b c \<Longrightarrow> grows a c"
  unfolding grows_def by blast

lemma grows_other_fields [simp]:
  "grows st (st'\<lparr>comp_dict := d\<rparr>) = grows st st'"
  "grows st (st'\<lparr>rxn_dict := r\<rparr>) = grows st st'"
  "grows st (st'\<lparr>comps := n\<rparr>) = grows st st'"
  "grows st (st'\<lparr>comp_cache := c\<rparr>) = grows st st'"
  "grows st (st'\<lparr>extended_comp_ids := e\<rparr>) = grows st st'"
  by (simp_all add: grows_def)

lemma grows_stderr: "grows st (st\<lparr>stderr := stderr st @ w\<rparr>)"
  by (auto simp: grows_def)

lemma grows_add_start_comps: "grows st (add_start_comps C cs st)"
proof (induction C cs st rule: add_start_comps.induct)
  case (3 C cp rest st)
  let ?st = "case comp_id cp of
          None \<Rightarrow> st\<lparr>stderr := stderr st @ [NotValidCompound cp]\<rparr>
        | Some i \<Rightarrow>
            if \<not> LimitCarbon cp C
            then st\<lparr>comp_dict := AList.update i cp (comp_dict st),
                    comps := comps st + 1,
                    stderr := stderr st @ LimitCarbon_err cp\<rparr>
            else st\<lparr>stderr := stderr st @ LimitCarbon_err cp @ [StartExceedsCLimit i]\<rparr>"
  have "grows st ?st" by (auto simp: grows_def split: option.splits)
  with "3.IH" show ?case by (auto intro: grows_trans)
qed simp_all

lemma add_start_comps_warns:
  "Some cp \<in> set cs \<Longrightarrow> comp_id cp = Some s \<Longrightarrow> LimitCarbon cp C \<Longrightarrow>
   StartExceedsCLimit s \<in> set (stderr (add_start_comps C cs st))"
proof (induction C cs st rule: add_start_comps.induct)
  case (1 C st)
  then show ?case by simp
next
  case (2 C rest st)
  then show ?case by simp
next
  case (3 C cp' rest st)
  let ?st = "case comp_id cp' of
          None \<Rightarrow> st\<lparr>stderr := stderr st @ [NotValidCompound cp']\<rparr>
        | Some i \<Rightarrow>
            if \<not> LimitCarbon cp' C
            then st\<lparr>comp_dict := AList.update i cp' (comp_dict st),
                    comps := comps st + 1,
                    stderr := stderr st @ LimitCarbon_err cp'\<rparr>
            else st\<lparr>stderr := stderr st @ LimitCarbon_err cp' @ [StartExceedsCLimit i]\<rparr>"
  show ?case
  proof (cases "cp' = cp")
    case True
    with "3.prems" have "StartExceedsCLimit s \<in> set (stderr ?st)" by simp
    moreover have "grows ?st (add_start_comps C rest ?st)" by (rule grows_add_start_comps)
    ultimately show ?thesis by (auto simp: grows_def)
  next
    case False
    with "3.prems" have "Some cp \<in> set rest" by auto
    from "3.IH" [OF this "3.prems"(2,3)] show ?thesis by simp
  qed
qed

lemma grows_cache_comps: "grows st (cache_comps cs st)"
proof (induction cs st rule: cache_comps.induct)
  case (3 cp rest st)
  let ?st = "case comp_id cp of
          None \<Rightarrow> st\<lparr>stderr := stderr st @ [CompoundLacksId cp]\<rparr>
        | Some i \<Rightarrow> st\<lparr>comp_cache := AList.update i cp (comp_cache st)\<rparr>"
  have "grows st ?st" by (auto simp: grows_def split: option.splits)
  with "3.IH" show ?case by (auto intro: grows_trans)
qed simp_all

lemma grows_walk_comps:
  "walk_comps C rid ids (st, new) = (st', new') \<Longrightarrow> grows st st'"
proof (induction ids arbitrary: st new)
  case Nil
  then show ?case by simp
next
  case (Cons i ids)
  show ?case
  proof (cases "i \<notin> set (map fst (comp_dict st))")
    case False
    with Cons show ?thesis by simp
  next
    case True
    show ?thesis
    proof (cases "map_of (comp_cache st) i")
      case None
      with True Cons show ?thesis by simp
    next
      case (Some cp)
      show ?thesis
      proof (cases "LimitCarbon cp C")
        case lc: True
        with True Some Cons.prems show ?thesis by (auto simp: grows_def)
      next
        case False
        let ?st = "st\<lparr>stderr := stderr st @ LimitCarbon_err cp\<rparr>"
        from True Some False Cons.prems
        have "walk_comps C rid ids (?st, List.insert i new) = (st', new')" by simp
        from Cons.IH [OF this] grows_stderr [of st] show ?thesis by (rule grows_trans [rotated])
      qed
    qed
  qed
qed

lemma grows_harvest: "harvest cl ids st = Inr (b, st') \<Longrightarrow> grows st st'"
proof (induction ids arbitrary: st)
  case Nil
  then show ?case by simp
next
  case (Cons i ids)
  from Cons.prems obtain cp where cp: "map_of (comp_cache st) i = Some cp"
    by (auto split: option.splits)
  let ?st = "st\<lparr>comp_dict := AList.update i cp (comp_dict st), comps := comps st + 1\<rparr>"
  show ?case
  proof (cases "int (comps ?st) \<ge> cl")
    case True
    with cp Cons.prems show ?thesis by (auto simp: Let_def)
  next
    case False
    with cp Cons.prems have "harvest cl ids ?st = Inr (b, st')" by (simp add: Let_def)
    from Cons.IH [OF this] show ?thesis by (simp add: grows_def)
  qed
qed

lemma grows_explore_rxns:
  "explore_rxns sched cl C rs st = Inr (b, st') \<Longrightarrow> grows st st'"
proof (induction rs arbitrary: st)
  case Nil
  then show ?case by simp
next
  case (Cons ro rs)
  show ?case
  proof (cases ro)
    case None
    with Cons show ?thesis by simp
  next
    case (Some r)
    show ?thesis
    proof (cases "rxn_id r")
      case None
      let ?st = "st\<lparr>stderr := stderr st @ [ReactionLacksId r]\<rparr>"
      from Cons.prems None Some have "explore_rxns sched cl C rs ?st = Inr (b, st')" by simp
      from Cons.IH [OF this] grows_stderr [of st] show ?thesis by (rule grows_trans [rotated])
    next
      case (Some rid)
      note ro = \<open>ro = Some r\<close>
      let ?st0 = "st\<lparr>stderr := stderr st @ ExtractReactionCompIds_err r\<rparr>"
      obtain st1 new where w: "walk_comps C rid (ExtractReactionCompIds r) (?st0, []) = (st1, new)"
        by (cases "walk_comps C rid (ExtractReactionCompIds r) (?st0, [])") auto
      have g1: "grows st st1"
        using grows_stderr [of st] grows_walk_comps [OF w] by (rule grows_trans)
      show ?thesis
      proof (cases "rid \<in> rxn_exceeding_C_limit st1")
        case True
        with Cons.prems ro Some w have "explore_rxns sched cl C rs st1 = Inr (b, st')" by simp
        from g1 Cons.IH [OF this] show ?thesis by (rule grows_trans)
      next
        case False
        let ?st2 = "st1\<lparr>rxn_dict := AList.update rid r (rxn_dict st1)\<rparr>"
        from Cons.prems ro Some w False obtain b2 st3 where
          h: "harvest cl (sched new) ?st2 = Inr (b2, st3)"
          and rest: "if b2 then st' = st3 else explore_rxns sched cl C rs st3 = Inr (b, st')"
          by (auto split: sum.splits if_splits)
        from grows_harvest [OF h] have "grows st1 st3" by (simp add: grows_def)
        with g1 have g3: "grows st st3" by (rule grows_trans)
        show ?thesis
        proof (cases b2)
          case True
          with rest g3 show ?thesis by simp
        next
          case False
          with rest have "explore_rxns sched cl C rs st3 = Inr (b, st')" by simp
          from g3 Cons.IH [OF this] show ?thesis by (rule grows_trans)
        qed
      qed
    qed
  qed
qed

lemma grows_expand_step:
  assumes "expand_step sched gc gr cl C st = Inr (b, st')"
  shows "grows st st'"
proof -
  let ?rxns = "ThreadedGetRxns sched gr (rxn_ids_to_download st)"
  let ?comps = "ThreadedGetComps sched gc (comp_ids_to_download st ?rxns)"
  let ?st1 = "cache_comps ?comps (st\<lparr>stderr := stderr st @ download_err ?rxns\<rparr>)"
  from assms obtain b2 st2 where e: "explore_rxns sched cl C ?rxns ?st1 = Inr (b2, st2)"
    and st': "st' = (if b2 then st2
                     else st2\<lparr>extended_comp_ids :=
                            extended_comp_ids st2 \<union> set (unextended_comp_ids st)\<rparr>)"
    unfolding expand_step_def Let_def by (auto split: sum.splits if_splits)
  have "grows st ?st1"
    using grows_stderr [of st] grows_cache_comps by (rule grows_trans)
  from this grows_explore_rxns [OF e] have "grows st st2" by (rule grows_trans)
  then show ?thesis by (simp add: st')
qed

lemma grows_expand_loop:
  "expand_loop sched gc gr cl C n st = Inr st' \<Longrightarrow> grows st st'"
proof (induction n arbitrary: st)
  case 0
  then show ?case by simp
next
  case (Suc n)
  from Suc.prems obtain b st1 where s: "expand_step sched gc gr cl C st = Inr (b, st1)"
    and rest: "if b then st' = st1 else expand_loop sched gc gr cl C n st1 = Inr st'"
    by (auto split: sum.splits if_splits)
  show ?case
  proof (cases b)
    case True
    with rest grows_expand_step [OF s] show ?thesis by simp
  next
    case False
    with rest have "expand_loop sched gc gr cl C n st1 = Inr st'" by simp
    from grows_expand_step [OF s] Suc.IH [OF this] show ?thesis by (rule grows_trans)
  qed
qed

lemma expand_loop_prefix:
  "expand_loop sched gc gr cl C n st = Inr a \<Longrightarrow>
   expand_loop sched gc gr cl C m st = Inr b \<Longrightarrow> n \<le> m \<Longrightarrow> grows a b"
proof (induction n arbitrary: st m)
  case 0
  then show ?case by (simp add: grows_expand_loop)
next
  case (Suc n)
  from Suc.prems(3) obtain m' where m: "m = Suc m'" and le: "n \<le> m'" by (cases m) auto
  from Suc.prems(1) obtain r st1 where s: "expand_step sched gc gr cl C st = Inr (r, st1)"
    and ra: "if r then a = st1 else expand_loop sched gc gr cl C n st1 = Inr a"
    by (auto split: sum.splits if_splits)
  show ?case
  proof (cases r)
    case True
    with ra s Suc.prems(2) m show ?thesis by simp
  next
    case False
    with ra s Suc.prems(2) m have "expand_loop sched gc gr cl C n st1 = Inr a"
      "expand_loop sched gc gr cl C m' st1 = Inr b" by simp_all
    from Suc.IH [OF this le] show ?thesis .
  qed
qed

lemma perm_sched_id: "perm_sched (\<lambda>xs. xs)"
  by (simp add: perm_sched_def)

lemma consistent_repo_comps: "consistent repo_comps comp_id"
  by (auto simp: consistent_def repo_comps_def mk_comp_def split: if_splits)

lemma consistent_repo_rxns: "consistent repo_rxns rxn_id"
  by (auto simp: consistent_def repo_rxns_def mk_rxn_def split: if_splits)

text \<open>
  Claim C5. A run of \<^verbatim>\<open>GetRawNetwork\<close> against a consistent repository returns, and
  no id that is in \<^verbatim>\<open>comp_exceeding_C_limit\<close> or in \<^verbatim>\<open>rxn_exceeding_C_limit\<close> when
  it returns is a key of the \<^verbatim>\<open>comp_dict\<close> or the \<^verbatim>\<open>rxn_dict\<close> it returns. The same
  holds of the two sets as they stand after any smaller number \<open>n\<close> of rounds of the
  same run: an id that has once been placed in one of them is never a key of the
  dictionary that is returned in the end.
\<close>

theorem GetRawNetwork_exclusion:
  assumes perm: "perm_sched sched" and cc: "consistent gc comp_id"
    and cr: "consistent gr rxn_id"
  shows "\<exists>st. GetRawNetwork_run sched gc gr ids sl cl C = Inr st \<and>
           GetRawNetwork sched gc gr ids sl cl C = Inr (comp_dict st, rxn_dict st) \<and>
           (\<forall>n st_n. n \<le> sl \<and> GetRawNetwork_run sched gc gr ids n cl C = Inr st_n \<longrightarrow>
              comp_exceeding_C_limit st_n \<inter> fst ` set (comp_dict st) = {} \<and>
              rxn_exceeding_C_limit st_n \<inter> fst ` set (rxn_dict st) = {})"
proof -
  from GetRawNetwork_run_inv [OF perm cc cr] obtain st where
    run: "GetRawNetwork_run sched gc gr ids sl cl C = Inr st" and inv: "run_inv gc C st"
    by blast
  note dj = run_inv_disjoint [OF inv]
  have "comp_exceeding_C_limit st_n \<inter> fst ` set (comp_dict st) = {} \<and>
        rxn_exceeding_C_limit st_n \<inter> fst ` set (rxn_dict st) = {}"
    if n: "n \<le> sl" and rn: "GetRawNetwork_run sched gc gr ids n cl C = Inr st_n" for n st_n
  proof -
    from n have "nat n \<le> nat sl" by simp
    from expand_loop_prefix [OF rn [unfolded GetRawNetwork_run_def]
        run [unfolded GetRawNetwork_run_def] this]
    have "grows st_n st" .
    then have "comp_exceeding_C_limit st_n \<subseteq> comp_exceeding_C_limit st"
      "rxn_exceeding_C_limit st_n \<subseteq> rxn_exceeding_C_limit st"
      by (simp_all add: grows_def)
    with dj show ?thesis by blast
  qed
  then have "\<forall>n st_n. n \<le> sl \<and> GetRawNetwork_run sched gc gr ids n cl C = Inr st_n \<longrightarrow>
      comp_exceeding_C_limit st_n \<inter> fst ` set (comp_dict st) = {} \<and>
      rxn_exceeding_C_limit st_n \<inter> fst ` set (rxn_dict st) = {}"
    by blast
  moreover have "GetRawNetwork sched gc gr ids sl cl C = Inr (comp_dict st, rxn_dict st)"
    by (simp add: GetRawNetwork_def run)
  ultimately show ?thesis using run by blast
qed

lemma repo_run:
  "(case GetRawNetwork_run (\<lambda>xs. xs) repo_comps repo_rxns [''A''] 10 100 25 of
      Inl e \<Rightarrow> False
    | Inr st \<Rightarrow> ''B'' \<in> comp_exceeding_C_limit st \<and> ''R1'' \<in> rxn_exceeding_C_limit st \<and>
               map fst (comp_dict st) = [''A'', ''D'', ''E''] \<and>
               map fst (rxn_dict st) = [''R2'', ''R3''])"
  by code_simp

theorem GetRawNetwork_exclusion_witness:
  "\<exists>st. GetRawNetwork_run (\<lambda>xs. xs) repo_comps repo_rxns [''A''] 10 100 25 = Inr st \<and>
     ''B'' \<in> comp_exceeding_C_limit st \<and> ''R1'' \<in> rxn_exceeding_C_limit st \<and>
     ''B'' \<notin> fst ` set (comp_dict st) \<and> ''R1'' \<notin> fst ` set (rxn_dict st)"
proof -
  from GetRawNetwork_exclusion [OF perm_sched_id consistent_repo_comps consistent_repo_rxns,
      of "[''A'']" 10 100 25]
  obtain st where run: "GetRawNetwork_run (\<lambda>xs. xs) repo_comps repo_rxns [''A''] 10 100 25 = Inr st"
    and every: "\<forall>n st_n. n \<le> 10 \<and>
        GetRawNetwork_run (\<lambda>xs. xs) repo_comps repo_rxns [''A''] n 100 25 = Inr st_n \<longrightarrow>
        comp_exceeding_C_limit st_n \<inter> fst ` set (comp_dict st) = {} \<and>
        rxn_exceeding_C_limit st_n \<inter> fst ` set (rxn_dict st) = {}"
    by (elim exE conjE)
  from every [rule_format, of 10 st] run
  have dj: "comp_exceeding_C_limit st \<inter> fst ` set (comp_dict st) = {}"
      "rxn_exceeding_C_limit st \<inter> fst ` set (rxn_dict st) = {}"
    by simp_all
  from repo_run run have "''B'' \<in> comp_exceeding_C_limit st" "''R1'' \<in> rxn_exceeding_C_limit st"
    by simp_all
  with run dj show ?thesis by blast
qed

lemma expand_step_empty:
  assumes perm: "perm_sched sched" and e: "comp_dict st = []"
  shows "\<exists>st'. expand_step sched gc gr cl C st = Inr (False, st') \<and> comp_dict st' = [] \<and>
           rxn_dict st' = rxn_dict st \<and> stderr st' = stderr st"
proof -
  have "rxn_ids_to_download st = []" by (simp add: rxn_ids_to_download_def e)
  then have r: "ThreadedGetRxns sched gr (rxn_ids_to_download st) = []"
    by (simp add: ThreadedGetRxns_def perm_sched_Nil [OF perm])
  have c: "ThreadedGetComps sched gc (comp_ids_to_download st []) = []"
    by (simp add: ThreadedGetComps_def comp_ids_to_download_def perm_sched_Nil [OF perm])
  show ?thesis
    unfolding expand_step_def Let_def r c by (simp add: download_err_def e)
qed

lemma expand_loop_empty:
  assumes perm: "perm_sched sched"
  shows "comp_dict st = [] \<Longrightarrow>
         \<exists>st'. expand_loop sched gc gr cl C n st = Inr st' \<and> comp_dict st' = [] \<and>
           rxn_dict st' = rxn_dict st \<and> stderr st' = stderr st"
proof (induction n arbitrary: st)
  case 0
  then show ?case by simp
next
  case (Suc n)
  from expand_step_empty [OF perm Suc.prems, of gc gr cl C] obtain st1 where
    s: "expand_step sched gc gr cl C st = Inr (False, st1)" and e: "comp_dict st1 = []"
    and r: "rxn_dict st1 = rxn_dict st" "stderr st1 = stderr st" by blast
  from Suc.IH [OF e] s r show ?case by simp
qed

lemma LimitCarbon_spec:
  "LimitCarbon cp C =
     (case Formula cp of None \<Rightarrow> False | Some f \<Rightarrow> C < int (spec_carbon_count f))"
  by (simp add: LimitCarbon_def C_count_spec split: option.splits)

lemma single_seed_excluded:
  assumes perm: "perm_sched sched" and g: "gc s = Some c" and l: "LimitCarbon c C"
  shows "GetRawNetwork sched gc gr [s] sl cl C = Inr ([], [])"
proof -
  let ?st = "add_start_comps C [Some c] start_expansion"
  have "comp_dict ?st = []" "rxn_dict ?st = []"
    using l by (simp_all add: start_expansion_def split: option.splits)
  with expand_loop_empty [OF perm, of ?st gc gr cl C "nat sl"] obtain st' where
    "expand_loop sched gc gr cl C (nat sl) ?st = Inr st'" "comp_dict st' = []"
    "rxn_dict st' = []" by auto
  then show ?thesis
    by (simp add: GetRawNetwork_def GetRawNetwork_run_def ThreadedGetComps_def
          perm_sched_single [OF perm] g)
qed

lemma seed_excluded:
  assumes perm: "perm_sched sched" and cc: "consistent gc comp_id"
    and cr: "consistent gr rxn_id"
    and s: "s \<in> set ids" and g: "gc s = Some c" and i: "comp_id c = Some s"
    and l: "LimitCarbon c C"
  shows "\<exists>st. GetRawNetwork_run sched gc gr ids sl cl C = Inr st \<and>
           GetRawNetwork sched gc gr ids sl cl C = Inr (comp_dict st, rxn_dict st) \<and>
           s \<notin> fst ` set (comp_dict st) \<and> StartExceedsCLimit s \<in> set (stderr st)"
proof -
  from GetRawNetwork_run_inv [OF perm cc cr] obtain st where
    run: "GetRawNetwork_run sched gc gr ids sl cl C = Inr st" and inv: "run_inv gc C st"
    by blast
  have out: "s \<notin> fst ` set (comp_dict st)"
  proof
    assume "s \<in> fst ` set (comp_dict st)"
    then obtain c' where "map_of (comp_dict st) s = Some c'"
      by (metis map_of_eq_None_iff not_None_eq)
    with inv have "gc s = Some c'" "\<not> LimitCarbon c' C" by (simp_all add: run_inv_def)
    with g l show False by simp
  qed
  let ?st0 = "add_start_comps C (ThreadedGetComps sched gc ids) start_expansion"
  have "Some c \<in> set (ThreadedGetComps sched gc ids)"
    using s g by (force simp: ThreadedGetComps_def perm_sched_set [OF perm])
  from add_start_comps_warns [OF this i l]
  have "StartExceedsCLimit s \<in> set (stderr ?st0)" .
  moreover from grows_expand_loop [OF run [unfolded GetRawNetwork_run_def]]
  have "set (stderr ?st0) \<subseteq> set (stderr st)" by (simp add: grows_def)
  ultimately have "StartExceedsCLimit s \<in> set (stderr st)" by blast
  moreover have "GetRawNetwork sched gc gr ids sl cl C = Inr (comp_dict st, rxn_dict st)"
    by (simp add: GetRawNetwork_def run)
  ultimately show ?thesis using run out by blast
qed

text \<open>
  Claim C7. \<^verbatim>\<open>LimitCarbon\<close> is true of a compound exactly when the compound has a
  formula and the carbon count of the formula (the integer after the first \<^verbatim>\<open>C\<close>, 0
  without a \<^verbatim>\<open>C\<close>, 1 when no digit follows it) is greater than the limit. In a run of
  \<^verbatim>\<open>GetRawNetwork\<close> against a consistent repository, a start compound for which
  \<^verbatim>\<open>LimitCarbon\<close> is true is not a key of the dictionary that is returned, the warning
  that it exceeds the limit has been written, and the run returns without an exception.
  A single start compound that exceeds the limit gives \<^verbatim>\<open>({}, {})\<close>.
\<close>

theorem LimitCarbon_seed_exclusion:
  assumes perm: "perm_sched sched" and cc: "consistent gc comp_id"
    and cr: "consistent gr rxn_id"
  shows "LimitCarbon cp C =
           (case Formula cp of None \<Rightarrow> False | Some f \<Rightarrow> C < int (spec_carbon_count f)) \<and>
         (\<forall>s c. s \<in> set ids \<and> gc s = Some c \<and> comp_id c = Some s \<and> LimitCarbon c C \<longrightarrow>
            (\<exists>st. GetRawNetwork_run sched gc gr ids sl cl C = Inr st \<and>
               GetRawNetwork sched gc gr ids sl cl C = Inr (comp_dict st, rxn_dict st) \<and>
               s \<notin> fst ` set (comp_dict st) \<and> StartExceedsCLimit s \<in> set (stderr st))) \<and>
         (\<forall>s c. gc s = Some c \<and> LimitCarbon c C \<longrightarrow>
            GetRawNetwork sched gc gr [s] sl cl C = Inr ([], []))"
proof (intro conjI allI impI)
  show "LimitCarbon cp C =
      (case Formula cp of None \<Rightarrow> False | Some f \<Rightarrow> C < int (spec_carbon_count f))"
    by (rule LimitCarbon_spec)
next
  fix s c
  assume "s \<in> set ids \<and> gc s = Some c \<and> comp_id c = Some s \<and> LimitCarbon c C"
  then have "s \<in> set ids" "gc s = Some c" "comp_id c = Some s" "LimitCarbon c C"
    by simp_all
  then show "\<exists>st. GetRawNetwork_run sched gc gr ids sl cl C = Inr st \<and>
      GetRawNetwork sched gc gr ids sl cl C = Inr (comp_dict st, rxn_dict st) \<and>
      s \<notin> fst ` set (comp_dict st) \<and> StartExceedsCLimit s \<in> set (stderr st)"
    by (rule seed_excluded [OF perm cc cr])
next
  fix s c
  assume "gc s = Some c \<and> LimitCarbon c C"
  then have "gc s = Some c" "LimitCarbon c C" by simp_all
  then show "GetRawNetwork sched gc gr [s] sl cl C = Inr ([], [])"
    by (rule single_seed_excluded [OF perm])
qed

lemma B_exceeds: "LimitCarbon (mk_comp ''B'' (Some ''C30H62'') None (Some [''R1''])) 25"
  by code_simp

theorem LimitCarbon_seed_exclusion_witness:
  "LimitCarbon (mk_comp ''B'' (Some ''C30H62'') None (Some [''R1''])) 25 \<and>
   GetRawNetwork (\<lambda>xs. xs) repo_comps repo_rxns [''B''] 10 100000 25 = Inr ([], []) \<and>
   (\<exists>st. GetRawNetwork_run (\<lambda>xs. xs) repo_comps repo_rxns [''A'', ''B''] 10 100000 25 = Inr st \<and>
      ''B'' \<notin> fst ` set (comp_dict st) \<and> StartExceedsCLimit ''B'' \<in> set (stderr st))"
proof -
  let ?B = "mk_comp ''B'' (Some ''C30H62'') None (Some [''R1''])"
  have g: "repo_comps ''B'' = Some ?B" by (simp add: repo_comps_def)
  have i: "comp_id ?B = Some ''B''" by (simp add: mk_comp_def)
  note T = LimitCarbon_seed_exclusion [OF perm_sched_id consistent_repo_comps
      consistent_repo_rxns]
  have p1: "''B'' \<in> set [''A'', ''B''] \<and> repo_comps ''B'' = Some ?B \<and>
      comp_id ?B = Some ''B'' \<and> LimitCarbon ?B 25"
    using g i B_exceeds by simp
  from T [of ?B 25 "[''A'', ''B'']" 10 100000, THEN conjunct2, THEN conjunct1, rule_format,
      OF p1]
  have 1: "\<exists>st. GetRawNetwork_run (\<lambda>xs. xs) repo_comps repo_rxns [''A'', ''B''] 10 100000 25 = Inr st \<and>
      ''B'' \<notin> fst ` set (comp_dict st) \<and> StartExceedsCLimit ''B'' \<in> set (stderr st)"
    by (elim exE conjE, intro exI conjI)
  have p2: "repo_comps ''B'' = Some ?B \<and> LimitCarbon ?B 25"
    using g B_exceeds by simp
  from T [of ?B 25 "[]" 10 100000, THEN conjunct2, THEN conjunct2, rule_format, OF p2]
  have 2: "GetRawNetwork (\<lambda>xs. xs) repo_comps repo_rxns [''B''] 10 100000 25 = Inr ([], [])" .
  show ?thesis by (intro conjI B_exceeds 2 1)
qed

lemma length_update_le: "length (AList.update k v xs) \<le> Suc (length xs)"
  by (induction xs) auto

lemma add_start_comps_count:
  "length (comp_dict st) \<le> comps st \<Longrightarrow>
   length (comp_dict (add_start_comps C cs st)) \<le> comps (add_start_comps C cs st)"
proof (induction C cs st rule: add_start_comps.induct)
  case (3 C cp rest st)
  let ?st = "case comp_id cp of
          None \<Rightarrow> st\<lparr>stderr := stderr st @ [NotValidCompound cp]\<rparr>
        | Some i \<Rightarrow>
            if \<not> LimitCarbon cp C
            then st\<lparr>comp_dict := AList.update i cp (comp_dict st),
                    comps := comps st + 1,
                    stderr := stderr st @ LimitCarbon_err cp\<rparr>
            else st\<lparr>stderr := stderr st @ LimitCarbon_err cp @ [StartExceedsCLimit i]\<rparr>"
  have "length (comp_dict ?st) \<le> comps ?st"
    using "3.prems" length_update_le [of _ cp "comp_dict st"]
    by (auto split: option.splits intro: le_trans)
  from "3.IH" [OF this] show ?case by simp
qed simp_all

lemma walk_comps_fields:
  "walk_comps C rid ids (st, new) = (st', new') \<Longrightarrow>
   comp_dict st' = comp_dict st \<and> comps st' = comps st"
proof (induction ids arbitrary: st new)
  case Nil
  then show ?case by simp
next
  case (Cons i ids)
  show ?case
  proof (cases "i \<notin> set (map fst (comp_dict st))")
    case False
    with Cons show ?thesis by simp
  next
    case True
    show ?thesis
    proof (cases "map_of (comp_cache st) i")
      case None
      with True Cons show ?thesis by simp
    next
      case (Some cp)
      show ?thesis
      proof (cases "LimitCarbon cp C")
        case lc: True
        with True Some Cons.prems show ?thesis by auto
      next
        case False
        let ?st = "st\<lparr>stderr := stderr st @ LimitCarbon_err cp\<rparr>"
        from True Some False Cons.prems
        have "walk_comps C rid ids (?st, List.insert i new) = (st', new')" by simp
        from Cons.IH [OF this] show ?thesis by simp
      qed
    qed
  qed
qed

lemma harvest_within:
  "within cl st \<Longrightarrow> harvest cl ids st = Inr (b, st') \<Longrightarrow>
   length (comp_dict st') \<le> comps st' \<and> int (comps st') \<le> cl \<and> (\<not> b \<longrightarrow> within cl st')"
proof (induction ids arbitrary: st)
  case Nil
  then show ?case by (auto simp: within_def)
next
  case (Cons i ids)
  from Cons.prems(2) obtain cp where cp: "map_of (comp_cache st) i = Some cp"
    by (auto split: option.splits)
  let ?st = "st\<lparr>comp_dict := AList.update i cp (comp_dict st), comps := comps st + 1\<rparr>"
  have len: "length (comp_dict ?st) \<le> comps ?st"
    using Cons.prems(1) length_update_le [of i cp "comp_dict st"] by (simp add: within_def)
  show ?case
  proof (cases "int (comps ?st) \<ge> cl")
    case True
    with cp Cons.prems(2) have "st' = ?st" "b" by (auto simp: Let_def)
    with len True Cons.prems(1) show ?thesis by (simp add: within_def)
  next
    case False
    with cp Cons.prems(2) have h: "harvest cl ids ?st = Inr (b, st')" by (simp add: Let_def)
    from False len have "within cl ?st" by (simp add: within_def)
    from Cons.IH [OF this h] show ?thesis .
  qed
qed

lemma explore_rxns_within:
  "within cl st \<Longrightarrow> explore_rxns sched cl C rs st = Inr (b, st') \<Longrightarrow>
   length (comp_dict st') \<le> comps st' \<and> int (comps st') \<le> cl \<and> (\<not> b \<longrightarrow> within cl st')"
proof (induction rs arbitrary: st)
  case Nil
  then show ?case by (auto simp: within_def)
next
  case (Cons ro rs)
  show ?case
  proof (cases ro)
    case None
    with Cons show ?thesis by simp
  next
    case (Some r)
    show ?thesis
    proof (cases "rxn_id r")
      case None
      let ?st = "st\<lparr>stderr := stderr st @ [ReactionLacksId r]\<rparr>"
      from Cons.prems None Some have "explore_rxns sched cl C rs ?st = Inr (b, st')"
        and "within cl ?st" by (simp_all add: within_def)
      from Cons.IH [OF this(2,1)] show ?thesis .
    next
      case (Some rid)
      note ro = \<open>ro = Some r\<close>
      let ?st0 = "st\<lparr>stderr := stderr st @ ExtractReactionCompIds_err r\<rparr>"
      obtain st1 new where w: "walk_comps C rid (ExtractReactionCompIds r) (?st0, []) = (st1, new)"
        by (cases "walk_comps C rid (ExtractReactionCompIds r) (?st0, [])") auto
      from walk_comps_fields [OF w] Cons.prems(1) have w1: "within cl st1"
        by (simp add: within_def)
      show ?thesis
      proof (cases "rid \<in> rxn_exceeding_C_limit st1")
        case True
        with Cons.prems ro Some w have "explore_rxns sched cl C rs st1 = Inr (b, st')" by simp
        from Cons.IH [OF w1 this] show ?thesis .
      next
        case False
        let ?st2 = "st1\<lparr>rxn_dict := AList.update rid r (rxn_dict st1)\<rparr>"
        from Cons.prems ro Some w False obtain b2 st3 where
          h: "harvest cl (sched new) ?st2 = Inr (b2, st3)"
          and rest: "if b2 then st' = st3 \<and> b else explore_rxns sched cl C rs st3 = Inr (b, st')"
          by (auto split: sum.splits if_splits)
        from w1 have "within cl ?st2" by (simp add: within_def)
        note hw = harvest_within [OF this h]
        show ?thesis
        proof (cases b2)
          case True
          with rest hw show ?thesis by simp
        next
          case False
          with rest hw have "explore_rxns sched cl C rs st3 = Inr (b, st')" "within cl st3"
            by simp_all
          from Cons.IH [OF this(2,1)] show ?thesis .
        qed
      qed
    qed
  qed
qed

lemma expand_step_within:
  assumes "within cl st" and "expand_step sched gc gr cl C st = Inr (b, st')"
  shows "length (comp_dict st') \<le> comps st' \<and> int (comps st') \<le> cl \<and>
         (\<not> b \<longrightarrow> within cl st')"
proof -
  let ?rxns = "ThreadedGetRxns sched gr (rxn_ids_to_download st)"
  let ?comps = "ThreadedGetComps sched gc (comp_ids_to_download st ?rxns)"
  let ?st1 = "cache_comps ?comps (st\<lparr>stderr := stderr st @ download_err ?rxns\<rparr>)"
  from assms(2) obtain b2 st2 where e: "explore_rxns sched cl C ?rxns ?st1 = Inr (b2, st2)"
    and st': "b = b2" "st' = (if b2 then st2
                     else st2\<lparr>extended_comp_ids :=
                            extended_comp_ids st2 \<union> set (unextended_comp_ids st)\<rparr>)"
    unfolding expand_step_def Let_def by (auto split: sum.splits if_splits)
  from assms(1) have "within cl ?st1" by (simp add: within_def)
  from explore_rxns_within [OF this e] show ?thesis by (simp add: st' within_def)
qed

lemma expand_loop_within:
  "within cl st \<Longrightarrow> expand_loop sched gc gr cl C n st = Inr st' \<Longrightarrow>
   length (comp_dict st') \<le> comps st' \<and> int (comps st') \<le> cl"
proof (induction n arbitrary: st)
  case 0
  then show ?case by (simp add: within_def)
next
  case (Suc n)
  from Suc.prems(2) obtain b st1 where s: "expand_step sched gc gr cl C st = Inr (b, st1)"
    and rest: "if b then st' = st1 else expand_loop sched gc gr cl C n st1 = Inr st'"
    by (auto split: sum.splits if_splits)
  note sw = expand_step_within [OF Suc.prems(1) s]
  show ?case
  proof (cases b)
    case True
    with rest sw show ?thesis by simp
  next
    case False
    with rest sw have "within cl st1" "expand_loop sched gc gr cl C n st1 = Inr st'" by simp_all
    from Suc.IH [OF this] show ?thesis .
  qed
qed

lemma add_start_comps_comps:
  "comps (add_start_comps C cs st) \<le> comps st + length cs"
proof (induction C cs st rule: add_start_comps.induct)
  case (3 C cp rest st)
  then show ?case by (auto split: option.splits if_splits)
qed simp_all

text \<open>
  With fewer start ids than \<^verbatim>\<open>comp_limit\<close>, the dictionary that is returned has at most
  \<^verbatim>\<open>comp_limit\<close> entries.
\<close>

lemma GetRawNetwork_comp_limit:
  assumes perm: "perm_sched sched" and few: "int (length comp_id_list) < comp_limit"
    and run: "GetRawNetwork sched gc gr comp_id_list step_limit comp_limit C = Inr (cd, rd)"
  shows "int (length cd) \<le> comp_limit"
proof -
  let ?st0 = "add_start_comps C (ThreadedGetComps sched gc comp_id_list) start_expansion"
  from run obtain st where st: "expand_loop sched gc gr comp_limit C (nat step_limit) ?st0 = Inr st"
    and cd: "cd = comp_dict st"
    by (auto simp: GetRawNetwork_def GetRawNetwork_run_def split: sum.splits)
  have "length (sched comp_id_list) = length comp_id_list"
    using perm unfolding perm_sched_def by (metis size_mset)
  with add_start_comps_comps [of C "ThreadedGetComps sched gc comp_id_list" start_expansion]
  have "comps ?st0 \<le> length comp_id_list"
    by (simp add: ThreadedGetComps_def start_expansion_def)
  moreover have "length (comp_dict ?st0) \<le> comps ?st0"
    by (rule add_start_comps_count) (simp add: start_expansion_def)
  ultimately have "within comp_limit ?st0" using few by (simp add: within_def)
  from expand_loop_within [OF this st] show ?thesis by (simp add: cd)
qed

text \<open>
  Claim C2 says that the returned compound dictionary never has more than
  \<^verbatim>\<open>comp_limit\<close> entries. The start compounds are added without any test of the limit:
  with the two start compounds \<^verbatim>\<open>A\<close> and \<^verbatim>\<open>D\<close> and \<^verbatim>\<open>comp_limit=1\<close> the function
  returns both.
\<close>

theorem GetRawNetwork_over_limit:
  "(case GetRawNetwork (\<lambda>xs. xs) two_comps no_rxns [''A'', ''D''] 10 1 25 of
      Inl e \<Rightarrow> []
    | Inr (cd, rd) \<Rightarrow> map fst cd) = [''A'', ''D'']"
  by code_simp

end
